theory Spec2Isabelle
  imports Main "HOL-Library.Word" "HOL-Library.Sublist"
begin

section \<open>Strings and character classes\<close>

text \<open>
  A TypeScript string is a sequence of 16-bit code units, and a regular expression without
  the \<open>u\<close> flag works on code units. \<open>js\<close> writes a string literal of the source as
  such a sequence.
\<close>

type_synonym cu = "16 word"

definition js :: "string \<Rightarrow> cu list" where
  "js = map of_char"

text \<open>The language's LineTerminator and the class \<open>\s\<close> (WhiteSpace and LineTerminator).\<close>

definition isLineTerminator :: "cu \<Rightarrow> bool" where
  "isLineTerminator c = (c = 0x000A \<or> c = 0x000D \<or> c = 0x2028 \<or> c = 0x2029)"

definition isWhiteSpace :: "cu \<Rightarrow> bool" where
  "isWhiteSpace c =
     (c = 0x0009 \<or> c = 0x000B \<or> c = 0x000C \<or> c = 0x0020 \<or> c = 0x00A0 \<or> c = 0x1680
      \<or> (0x2000 \<le> c \<and> c \<le> 0x200A) \<or> c = 0x202F \<or> c = 0x205F \<or> c = 0x3000
      \<or> c = 0xFEFF \<or> isLineTerminator c)"

text \<open>
  The atoms the five patterns of \<open>renderMarkdown\<close> use: a literal character, a bracket
  class such as \<open>[\*-]\<close>, \<open>\s\<close>, the dot (anything but a line terminator, there is no
  \<open>s\<close> flag) and \<open>[\s\S]\<close> (anything).
\<close>

datatype cls = Ch cu | OneOf "cu list" | Space | Dot | AnyCu

fun clsMatch :: "cls \<Rightarrow> cu \<Rightarrow> bool" where
  "clsMatch (Ch d) c = (c = d)"
| "clsMatch (OneOf ds) c = (c \<in> set ds)"
| "clsMatch Space c = isWhiteSpace c"
| "clsMatch Dot c = (\<not> isLineTerminator c)"
| "clsMatch AnyCu c = True"

section \<open>The backtracking matcher\<close>

text \<open>
  \<open>Star True a\<close> is \<open>a*\<close>, \<open>Star False a\<close> is \<open>a*?\<close>, \<open>Group\<close> is the capture group
  1 (each pattern has exactly one), \<open>NotAhead\<close> is \<open>(?!a)\<close>, \<open>Bol\<close> and \<open>Eol\<close> are
  \<open>^\<close> and \<open>$\<close> under the \<open>m\<close> flag.
\<close>

datatype re = Empty | Cls cls | Seq re re | Star bool re | Group re | NotAhead re | Bol | Eol

datatype mstate = MState (endIndex: nat) (capture1: "(nat \<times> nat) option")

text \<open>
  \<open>run r s st\<close> lists every way \<open>r\<close> can match \<open>s\<close> from the state \<open>st\<close>, in the order in
  which the backtracking matcher of the language tries them; the matcher's answer is the
  first. A greedy star tries one more iteration before stopping, a lazy one stops first.
  An iteration that consumes nothing is rejected, as the language's repeat matcher does;
  that an iteration never ends beyond the input is \<open>run_bounds\<close> below, and the
  test only makes the recursion visibly well-founded. No pattern of the source has a group
  under a quantifier, so the reset of captures at each iteration has nothing to reset.
\<close>

function run :: "re \<Rightarrow> cu list \<Rightarrow> mstate \<Rightarrow> mstate list" where
  "run Empty s st = [st]"
| "run (Cls c) s st =
     (if endIndex st < length s \<and> clsMatch c (s ! endIndex st)
      then [MState (endIndex st + 1) (capture1 st)] else [])"
| "run (Seq a b) s st = concat (map (run b s) (run a s st))"
| "run (Star greedy a) s st =
     (let more = concat (map (\<lambda>y. if endIndex st < endIndex y \<and> endIndex y \<le> length s
                                     then run (Star greedy a) s y else [])
                             (run a s st))
      in if greedy then more @ [st] else st # more)"
| "run (Group a) s st =
     map (\<lambda>y. MState (endIndex y) (Some (endIndex st, endIndex y))) (run a s st)"
| "run (NotAhead a) s st = (if run a s st = [] then [st] else [])"
| "run Bol s st =
     (if endIndex st = 0 \<or> (endIndex st \<le> length s \<and> isLineTerminator (s ! (endIndex st - 1)))
      then [st] else [])"
| "run Eol s st =
     (if endIndex st = length s \<or> (endIndex st < length s \<and> isLineTerminator (s ! endIndex st))
      then [st] else [])"
  by pat_completeness auto
termination
  by (relation "measures [\<lambda>(r, s, st). size r, \<lambda>(r, s, st). length s - endIndex st]") auto

declare run.simps(4) [simp del]

definition matchAt :: "re \<Rightarrow> cu list \<Rightarrow> nat \<Rightarrow> mstate option" where
  "matchAt r s i = (case run r s (MState i None) of [] \<Rightarrow> None | y # _ \<Rightarrow> Some y)"

text \<open>
  The search of a pattern that is not sticky: from \<open>lastIndex\<close> on, the first index at
  which the pattern matches; past the end of the input the search fails.
\<close>

function execFrom :: "re \<Rightarrow> cu list \<Rightarrow> nat \<Rightarrow> (nat \<times> mstate) option" where
  "execFrom r s i =
     (if length s < i then None
      else case matchAt r s i of
             Some y \<Rightarrow> Some (i, y)
           | None \<Rightarrow> execFrom r s (i + 1))"
  by pat_completeness auto
termination
  by (relation "measure (\<lambda>(r, s, i). length s + 1 - i)") auto

declare execFrom.simps [simp del]

lemma in_run_Star:
  "y \<in> set (run (Star g a) s st) \<longleftrightarrow>
     y = st \<or> (\<exists>z \<in> set (run a s st). endIndex st < endIndex z \<and> endIndex z \<le> length s
                 \<and> y \<in> set (run (Star g a) s z))"
  by (subst run.simps(4)) (auto simp: Let_def)

lemma run_bounds:
  "y \<in> set (run r s st) \<Longrightarrow>
     endIndex st \<le> endIndex y \<and> (endIndex st \<le> length s \<longrightarrow> endIndex y \<le> length s)"
proof (induction r s st arbitrary: y rule: run.induct)
  case (3 a b s st)
  from 3(3) obtain z where z: "z \<in> set (run a s st)" "y \<in> set (run b s z)" by auto
  from 3(1)[OF z(1)] 3(2)[OF z(1) z(2)] show ?case by auto
next
  case (4 greedy a s st)
  show ?case
  proof (cases "y = st")
    case True
    then show ?thesis by simp
  next
    case False
    with 4(3) obtain z where z: "z \<in> set (run a s st)" "endIndex st < endIndex z"
      "endIndex z \<le> length s" "y \<in> set (run (Star greedy a) s z)"
      by (subst (asm) in_run_Star) auto
    from 4(2)[OF z(1) _ z(4)] z(2,3) show ?thesis by auto
  qed
qed (auto split: if_splits)

lemma matchAt_bounds:
  "matchAt r s i = Some y \<Longrightarrow>
     i \<le> endIndex y \<and> (i \<le> length s \<longrightarrow> endIndex y \<le> length s)"
  using run_bounds [of y r s "MState i None"]
  by (auto simp: matchAt_def split: list.splits)

lemma execFrom_bounds:
  "execFrom r s li = Some (i, y) \<Longrightarrow>
     li \<le> i \<and> i \<le> length s \<and> i \<le> endIndex y \<and> endIndex y \<le> length s
     \<and> matchAt r s i = Some y"
proof (induction r s li rule: execFrom.induct)
  case (1 r s li)
  show ?case
  proof (cases "matchAt r s li")
    case None
    with 1 show ?thesis by (subst (asm) (2) execFrom.simps) (auto split: if_splits)
  next
    case (Some z)
    with "1.prems" have "length s \<ge> li" "i = li" "z = y"
      by (subst (asm) execFrom.simps; auto split: if_splits)+
    with Some matchAt_bounds [of r s li y] show ?thesis by auto
  qed
qed

section \<open>Global replacement\<close>

text \<open>
  \<open>String.prototype.replace\<close> with a pattern that has the \<open>g\<close> flag: the matches are
  collected from \<open>lastIndex = 0\<close> on, each search resuming at the end of the previous
  match (one further after an empty match); then the result is assembled from the text
  between the matches and the expanded replacement template.
\<close>

function collect :: "re \<Rightarrow> cu list \<Rightarrow> nat \<Rightarrow> (nat \<times> mstate) list" where
  "collect r s lastIndex =
     (case execFrom r s lastIndex of
        None \<Rightarrow> []
      | Some (i, y) \<Rightarrow>
          (i, y) # collect r s (if endIndex y = i then endIndex y + 1 else endIndex y))"
  by pat_completeness auto
termination
proof (relation "measure (\<lambda>(r, s, lastIndex). length s + 1 - lastIndex)")
  fix r s lastIndex m i y
  assume "execFrom r s lastIndex = Some m" "(i, y) = m"
  then have "execFrom r s lastIndex = Some (i, y)" by simp
  from execFrom_bounds [OF this]
  show "((r, s, if endIndex y = i then endIndex y + 1 else endIndex y), r, s, lastIndex)
          \<in> measure (\<lambda>(r, s, lastIndex). length s + 1 - lastIndex)"
    by auto
qed simp

declare collect.simps [simp del]

text \<open>The code units of \<open>s\<close> from index \<open>a\<close> up to, not including, index \<open>b\<close>.\<close>

definition substring :: "cu list \<Rightarrow> nat \<Rightarrow> nat \<Rightarrow> cu list" where
  "substring s a b = take (b - a) (drop a s)"

text \<open>A replacement template: literal text and \<open>$1\<close>. An unset capture expands to nothing.\<close>

datatype piece = Lit "cu list" | Cap1

fun getSubstitution :: "piece list \<Rightarrow> cu list \<Rightarrow> mstate \<Rightarrow> cu list" where
  "getSubstitution [] s y = []"
| "getSubstitution (Lit t # ps) s y = t @ getSubstitution ps s y"
| "getSubstitution (Cap1 # ps) s y =
     (case capture1 y of None \<Rightarrow> [] | Some (a, b) \<Rightarrow> substring s a b) @ getSubstitution ps s y"

fun build :: "cu list \<Rightarrow> piece list \<Rightarrow> nat \<Rightarrow> (nat \<times> mstate) list \<Rightarrow> cu list" where
  "build s tmpl nextSourcePosition [] = drop nextSourcePosition s"
| "build s tmpl nextSourcePosition ((position, y) # results) =
     (if nextSourcePosition \<le> position
      then substring s nextSourcePosition position @ getSubstitution tmpl s y
             @ build s tmpl (endIndex y) results
      else build s tmpl nextSourcePosition results)"

definition replaceAll :: "re \<Rightarrow> piece list \<Rightarrow> cu list \<Rightarrow> cu list" where
  "replaceAll r tmpl s = build s tmpl 0 (collect r s 0)"

section \<open>The renderer of RepoModal.tsx\<close>

definition seqs :: "re list \<Rightarrow> re" where
  "seqs rs = foldr Seq rs Empty"

definition lit :: "cu list \<Rightarrow> re" where
  "lit cs = seqs (map (\<lambda>c. Cls (Ch c)) cs)"

text \<open>\<open>a+\<close> and \<open>a+?\<close>: one iteration, then the star.\<close>

definition oneOrMore :: "bool \<Rightarrow> re \<Rightarrow> re" where
  "oneOrMore greedy a = Seq a (Star greedy a)"

text \<open>\<^verbatim>\<open>/^\s*[\*-]\s+(.+)$/gm\<close>\<close>

definition bulletRe :: re where
  "bulletRe = seqs [Bol, Star True (Cls Space), Cls (OneOf (js ''*-'')),
                    oneOrMore True (Cls Space), Group (oneOrMore True (Cls Dot)), Eol]"

text \<open>\<^verbatim>\<open>/((?:<li>[\s\S]*?<\/li>\s*)+)/g\<close>\<close>

definition listRe :: re where
  "listRe = Group (oneOrMore True (seqs [lit (js ''<li>''), Star False (Cls AnyCu),
                                          lit (js ''</li>''), Star True (Cls Space)]))"

text \<open>\<^verbatim>\<open>/\*\*(.+?)\*\*/g\<close>\<close>

definition boldRe :: re where
  "boldRe = seqs [lit (js ''**''), Group (oneOrMore False (Cls Dot)), lit (js ''**'')]"

text \<open>\<^verbatim>\<open>/\*(?!\s)(.+?)\*/g\<close>\<close>

definition italicRe :: re where
  "italicRe = seqs [lit (js ''*''), NotAhead (Cls Space), Group (oneOrMore False (Cls Dot)),
                    lit (js ''*'')]"

text \<open>The pattern of inline code: a backtick, \<^verbatim>\<open>(.+?)\<close>, a backtick, with the \<open>g\<close> flag.\<close>

definition codeRe :: re where
  "codeRe = seqs [lit (js ''`''), Group (oneOrMore False (Cls Dot)), lit (js ''`'')]"

definition renderMarkdown :: "cu list \<Rightarrow> cu list" where
  "renderMarkdown text =
     (let withListItems = replaceAll bulletRe [Lit (js ''<li>''), Cap1, Lit (js ''</li>'')] text;
          withLists = replaceAll listRe [Lit (js ''<ul>''), Cap1, Lit (js ''</ul>'')] withListItems
      in replaceAll codeRe [Lit (js ''<code>''), Cap1, Lit (js ''</code>'')]
           (replaceAll italicRe [Lit (js ''<em>''), Cap1, Lit (js ''</em>'')]
              (replaceAll boldRe [Lit (js ''<strong>''), Cap1, Lit (js ''</strong>'')]
                 withLists)))"

section \<open>The modal of RepoModal.tsx\<close>

text \<open>The interface \<open>Repo\<close> of RepoCard.tsx; an optional or nullable field is an option.\<close>

record repo =
  name :: "cu list"
  description :: "cu list option"
  html_url :: "cu list"
  language :: "cu list option"
  stargazers_count :: int
  updated_at :: "cu list"
  cover_url :: "cu list option"
  readme_summary :: "cu list option"

text \<open>
  What the modal shows. \<open>Article\<close> is the element whose content is set through
  \<open>dangerouslySetInnerHTML\<close>: its first field is inserted as markup, not as text; its
  second field is the tooltip beside it. \<open>Notice\<close> is the paragraph shown instead.
\<close>

datatype content = Article (innerHtml: "cu list") (tooltip: "cu list") | Notice "cu list"

datatype view = Closed | Opened (href: "cu list") (dialogTitle: "cu list") (body: content)

definition noReadme :: "cu list" where
  "noReadme = js ''No README available for this repository.''"

text \<open>
  \<open>summaryModel\<close> is the environment variable \<open>NEXT_PUBLIC_SUMMARY_MODEL\<close>. An absent
  summary is replaced by the empty string (\<open>??\<close>) before the test, and the test is the
  truthiness of a string: it is false exactly for the empty string.
\<close>

definition RepoModal :: "cu list option \<Rightarrow> repo option \<Rightarrow> view" where
  "RepoModal summaryModel r =
     (case r of
        None \<Rightarrow> Closed
      | Some rp \<Rightarrow>
          (let summary = (case readme_summary rp of None \<Rightarrow> [] | Some t \<Rightarrow> t);
               modelName = (case summaryModel of
                              None \<Rightarrow> js ''google/gemma-3-27b-it:free''
                            | Some n \<Rightarrow> n)
           in Opened (html_url rp)
                (replaceAll (Cls (OneOf (js ''-_''))) [Lit (js '' '')] (name rp))
                (if summary \<noteq> []
                 then Article (renderMarkdown summary) (js ''Summary generated using '' @ modelName)
                 else Notice noReadme)))"

definition plainRepo :: repo where
  "plainRepo = \<lparr>name = js ''my-repo'', description = None, html_url = js ''https://example.org/r'',
                 language = None, stargazers_count = 0, updated_at = js ''2024-01-01'',
                 cover_url = None, readme_summary = None\<rparr>"

section \<open>The fetch functions of the thesis page and the home page\<close>

text \<open>
  A promise settles with a value (\<open>Inr\<close>) or is rejected with an error (\<open>Inl\<close>). The
  argument of each function is how \<open>await fetch(...)\<close> ended: rejected, or a response
  with its \<open>ok\<close> flag and the promise that \<open>res.json()\<close> returns. The result is how the
  promise of the async function settles for its caller.

  Inside \<open>try\<close>, a rejected \<open>await fetch(...)\<close> and a \<open>throw\<close> reach the \<open>catch\<close>
  block. \<open>return res.json()\<close> has no \<open>await\<close>: the function returns the promise itself
  and leaves the \<open>try\<close> block; the promise of the async function then settles as that
  promise does, behind the \<open>catch\<close>.
\<close>

datatype jsError = FetchRejected | NotOk | JsonRejected

record 'a response =
  ok :: bool
  json :: "jsError + 'a"

text \<open>
  The type \<open>Thesis\<close> of the home page; the one of the thesis page is the same without
  \<open>summary\<close>, which stays \<open>None\<close> there.
\<close>

record thesis =
  title :: "cu list"
  summary :: "cu list option"
  abstract :: "cu list option"
  assets :: "cu list list option"

record profile =
  about :: "cu list"
  email :: "cu list"

text \<open>The thesis page: a response that is not OK throws inside \<open>try\<close>.\<close>

definition fetchThesis :: "jsError + thesis response \<Rightarrow> jsError + thesis" where
  "fetchThesis fetched =
     (let fallback = \<lparr>title = js ''Thesis'', summary = None, abstract = None, assets = None\<rparr>;
          tried = (case fetched of
                     Inl e \<Rightarrow> Inl e
                   | Inr res \<Rightarrow> if \<not> ok res then Inl NotOk else Inr (json res))
      in case tried of Inl thrown \<Rightarrow> Inr fallback | Inr returned \<Rightarrow> returned)"

text \<open>The home page: a response that is not OK returns the fallback at once.\<close>

definition fetchRepos :: "jsError + repo list response \<Rightarrow> jsError + repo list" where
  "fetchRepos fetched =
     (let tried = (case fetched of
                     Inl e \<Rightarrow> Inl e
                   | Inr res \<Rightarrow> if \<not> ok res then Inr (Inr []) else Inr (json res))
      in case tried of Inl thrown \<Rightarrow> Inr [] | Inr returned \<Rightarrow> returned)"

definition fetchThesis_home :: "jsError + thesis response \<Rightarrow> jsError + thesis option" where
  "fetchThesis_home fetched =
     (let tried = (case fetched of
                     Inl e \<Rightarrow> Inl e
                   | Inr res \<Rightarrow> if \<not> ok res then Inr (Inr None) else Inr (map_sum id Some (json res)))
      in case tried of Inl thrown \<Rightarrow> Inr None | Inr returned \<Rightarrow> returned)"

definition fetchProfile :: "jsError + profile response \<Rightarrow> jsError + profile option" where
  "fetchProfile fetched =
     (let tried = (case fetched of
                     Inl e \<Rightarrow> Inl e
                   | Inr res \<Rightarrow> if \<not> ok res then Inr (Inr None) else Inr (map_sum id Some (json res)))
      in case tried of Inl thrown \<Rightarrow> Inr None | Inr returned \<Rightarrow> returned)"

section \<open>Predicates of the statements\<close>

text \<open>How often a piece of text occurs in a string, counting every position.\<close>

fun occurrences :: "cu list \<Rightarrow> cu list \<Rightarrow> nat" where
  "occurrences p [] = 0"
| "occurrences p (c # cs) = (if prefix p (c # cs) then 1 else 0) + occurrences p cs"

definition startsAt :: "cu list \<Rightarrow> cu list \<Rightarrow> nat \<Rightarrow> bool" where
  "startsAt p s i = prefix p (drop i s)"

text \<open>
  A bullet marker at index \<open>i\<close>: a \<open>*\<close> or \<open>-\<close> that is followed by a whitespace
  character (a line break is one) and has only whitespace between it and the start of
  its line.
\<close>

definition bulletAt :: "cu list \<Rightarrow> nat \<Rightarrow> bool" where
  "bulletAt s i =
     (i + 1 < length s \<and> s ! i \<in> set (js ''*-'') \<and> isWhiteSpace (s ! (i + 1))
      \<and> list_all isWhiteSpace (takeWhile (\<lambda>c. \<not> isLineTerminator c) (rev (take i s))))"

definition hasBulletLine :: "cu list \<Rightarrow> bool" where
  "hasBulletLine s = list_ex (bulletAt s) [0..<length s]"

text \<open>The text \<open><li>\<close> somewhere, and the text \<open></li>\<close> somewhere after it.\<close>

definition hasListItem :: "cu list \<Rightarrow> bool" where
  "hasListItem s =
     list_ex (\<lambda>i. startsAt (js ''<li>'') s i
                  \<and> list_ex (startsAt (js ''</li>'') s) [i + 4..<length s]) [0..<length s]"

definition angleBracket :: "cu \<Rightarrow> bool" where
  "angleBracket c = (c = of_char CHR ''<'' \<or> c = of_char CHR ''>'')"

text \<open>The characters a stage may drop: whitespace and the marker characters.\<close>

definition strippable :: "cu \<Rightarrow> bool" where
  "strippable c \<longleftrightarrow> isWhiteSpace c \<or> c \<in> set (js ''*-`'')"

text \<open>
  A match of the grouping pattern is a container. A container is closed when it is not
  empty, no list item starts where it ends, and no whitespace follows it: nothing that the
  pattern could still have taken is left outside.
\<close>

definition closedRun :: "cu list \<Rightarrow> nat \<times> mstate \<Rightarrow> bool" where
  "closedRun w m =
     (fst m < endIndex (snd m) \<and> matchAt listRe w (endIndex (snd m)) = None
      \<and> \<not> (endIndex (snd m) < length w \<and> isWhiteSpace (w ! endIndex (snd m))))"

text \<open>
  Successive containers are separated: the next one starts strictly after the end of the
  previous one, and the character at that end is not whitespace.
\<close>

fun separated :: "cu list \<Rightarrow> (nat \<times> mstate) list \<Rightarrow> bool" where
  "separated w [] = True"
| "separated w [m] = True"
| "separated w (m1 # m2 # ms) =
     (endIndex (snd m1) < fst m2 \<and> \<not> isWhiteSpace (w ! endIndex (snd m1))
      \<and> separated w (m2 # ms))"

text \<open>
  Plain text of a list item or of a span: not empty, not starting with whitespace, and
  free of line terminators, stars, backticks and \<open><\<close>.
\<close>

definition plainText :: "cu list \<Rightarrow> bool" where
  "plainText t \<longleftrightarrow>
     t \<noteq> [] \<and> \<not> isWhiteSpace (hd t)
     \<and> list_all (\<lambda>c. \<not> isLineTerminator c \<and> c \<notin> set (js ''*`<'')) t"

text \<open>
  Lines joined by line feeds; the bullet lines with marker \<open>m\<close> and the given texts; the
  list items with the given texts, one on each line.
\<close>

fun joinLines :: "cu list list \<Rightarrow> cu list" where
  "joinLines [] = []"
| "joinLines [l] = l"
| "joinLines (l # l' # ls) = l @ of_char CHR ''\<newline>'' # joinLines (l' # ls)"

definition bulletLines :: "cu \<Rightarrow> cu list list \<Rightarrow> cu list" where
  "bulletLines m ts = joinLines (map (\<lambda>t. m # of_char CHR '' '' # t) ts)"

definition itemLines :: "cu list list \<Rightarrow> cu list" where
  "itemLines ts = joinLines (map (\<lambda>t. js ''<li>'' @ t @ js ''</li>'') ts)"

text \<open>
  \<open>wrapping Q opn cls s t\<close>: the string \<open>t\<close> is the string \<open>s\<close> in which some
  stretches \<open>pre @ inner @ post\<close> are replaced by \<open>opn @ inner @ cls\<close>, where \<open>pre\<close>
  and \<open>post\<close> consist of characters that satisfy \<open>Q\<close>. Every other character of \<open>s\<close>
  is copied, and so is \<open>inner\<close>: the two strings are read side by side, so each character
  of \<open>s\<close> that is not dropped has its own place in \<open>t\<close>, and \<open>t\<close> has nothing else
  but the inserted tags.
\<close>

inductive wrapping :: "(cu \<Rightarrow> bool) \<Rightarrow> cu list \<Rightarrow> cu list \<Rightarrow> cu list \<Rightarrow> cu list \<Rightarrow> bool"
  for Q :: "cu \<Rightarrow> bool" and opn :: "cu list" and cls :: "cu list" where
  stop: "wrapping Q opn cls [] []"
| keep: "wrapping Q opn cls s t \<Longrightarrow> wrapping Q opn cls (c # s) (c # t)"
| wrap: "list_all Q pre \<Longrightarrow> list_all Q post \<Longrightarrow> wrapping Q opn cls s t
           \<Longrightarrow> wrapping Q opn cls (pre @ inner @ post @ s) (opn @ inner @ cls @ t)"

section \<open>The five stages, as the specification describes them\<close>

text \<open>
  The specification describes the renderer as five stages with a fixed order of
  precedence, each of them recognising one construct, and asks for an explicit scanner in
  place of chained pattern substitution. This section writes the stages in that form. It
  uses neither the patterns nor the matcher of the sections above: a stage reads the
  string from left to right and decides at each index, by looking at the characters,
  whether its construct starts there. The stages are compared with \<open>renderMarkdown\<close>
  in the section of the claims.

  A construct found at an index is a triple \<open>(a, b, e)\<close>: its text is the part of
  the string from \<open>a\<close> up to \<open>b\<close>, and the construct, markers included, ends at
  \<open>e\<close>.
\<close>

text \<open>
  The end of the line that holds index \<open>i\<close> (the index of the next line terminator, or
  the length of the string), the end of the whitespace that starts at \<open>i\<close>, and the
  test that \<open>i\<close> is the start of a line. Whitespace is the class \<open>\s\<close>, which has the
  line terminators in it.
\<close>

definition lineEnd :: "cu list \<Rightarrow> nat \<Rightarrow> nat" where
  "lineEnd s i = i + length (takeWhile (\<lambda>c. \<not> isLineTerminator c) (drop i s))"

definition spaceEnd :: "cu list \<Rightarrow> nat \<Rightarrow> nat" where
  "spaceEnd s i = i + length (takeWhile isWhiteSpace (drop i s))"

definition atLineStart :: "cu list \<Rightarrow> nat \<Rightarrow> bool" where
  "atLineStart s i = (i = 0 \<or> (i \<le> length s \<and> isLineTerminator (s ! (i - 1))))"

text \<open>
  Bullet line: a line whose first character that is not whitespace is \<open>-\<close> or \<open>*\<close>,
  followed by whitespace and text; the text is the list item. The construct starts at the
  start of a line and ends at the end of a line. The text starts after the whitespace
  that follows the marker and runs to the end of its line. When that whitespace reaches
  the end of the string, the text starts at the last of its characters that is no line
  terminator, and without such a character there is no construct.
\<close>

definition bulletLineAt :: "cu list \<Rightarrow> nat \<Rightarrow> (nat \<times> nat \<times> nat) option" where
  "bulletLineAt s i =
     (let k = spaceEnd s i in
      if atLineStart s i \<and> k + 1 < length s \<and> s ! k \<in> set (js ''*-'') \<and> isWhiteSpace (s ! (k + 1))
      then map_option (\<lambda>j. (j, lineEnd s j, lineEnd s j))
             (find (\<lambda>j. j < length s \<and> \<not> isLineTerminator (s ! j))
                (rev [k + 2..<Suc (spaceEnd s (k + 2))]))
      else None)"

text \<open>
  List grouping: one or more consecutive list items, wrapped once in a single container.
  A list item at index \<open>i\<close> is the text \<open><li>\<close>, everything up to the nearest
  \<open></li>\<close> after it, and the whitespace that follows; \<open>itemAt\<close> gives the index
  where the item ends. \<open>itemsEnd\<close> is the end of the run of consecutive items that starts
  at an index. The construct is the whole run, and its text is the whole run as well.
\<close>

definition itemAt :: "cu list \<Rightarrow> nat \<Rightarrow> nat option" where
  "itemAt s i =
     (if startsAt (js ''<li>'') s i
      then map_option (\<lambda>k. spaceEnd s (k + 5))
             (find (startsAt (js ''</li>'') s) [i + 4..<Suc (length s)])
      else None)"

function itemsEnd :: "cu list \<Rightarrow> nat \<Rightarrow> nat" where
  "itemsEnd s i =
     (case itemAt s i of
        None \<Rightarrow> i
      | Some e \<Rightarrow> if i < e \<and> e \<le> length s then itemsEnd s e else i)"
  by pat_completeness auto
termination
  by (relation "measure (\<lambda>(s, i). length s - i)") auto

declare itemsEnd.simps [simp del]

definition listRunAt :: "cu list \<Rightarrow> nat \<Rightarrow> (nat \<times> nat \<times> nat) option" where
  "listRunAt s i = map_option (\<lambda>e. (i, itemsEnd s e, itemsEnd s e)) (itemAt s i)"

text \<open>
  Text between a pair of delimiters \<open>d\<close>: the delimiter, at least one character, and the
  nearest closing delimiter after it on the same line. Bold has the delimiter \<open>**\<close>,
  inline code the backtick, and italic the single \<open>*\<close> with an opening star that is not
  followed by whitespace.
\<close>

definition nearestClose :: "cu list \<Rightarrow> cu list \<Rightarrow> nat \<Rightarrow> nat option" where
  "nearestClose d s a = find (startsAt d s) [a + 1..<Suc (lineEnd s a)]"

definition delimitedAt :: "cu list \<Rightarrow> cu list \<Rightarrow> nat \<Rightarrow> (nat \<times> nat \<times> nat) option" where
  "delimitedAt d s i =
     (if startsAt d s i
      then map_option (\<lambda>k. (i + length d, k, k + length d)) (nearestClose d s (i + length d))
      else None)"

definition boldAt :: "cu list \<Rightarrow> nat \<Rightarrow> (nat \<times> nat \<times> nat) option" where
  "boldAt s i = delimitedAt (js ''**'') s i"

definition italicAt :: "cu list \<Rightarrow> nat \<Rightarrow> (nat \<times> nat \<times> nat) option" where
  "italicAt s i =
     (if i + 1 < length s \<and> isWhiteSpace (s ! (i + 1)) then None else delimitedAt (js ''*'') s i)"

definition codeAt :: "cu list \<Rightarrow> nat \<Rightarrow> (nat \<times> nat \<times> nat) option" where
  "codeAt s i = delimitedAt (js ''`'') s i"

text \<open>
  One stage. The string is read from left to right. Where a construct starts, its text is
  written between the opening and the closing tag, and reading resumes after the
  construct; any other character is copied.
\<close>

function scan :: "(cu list \<Rightarrow> nat \<Rightarrow> (nat \<times> nat \<times> nat) option) \<Rightarrow> cu list \<Rightarrow> cu list \<Rightarrow> cu list \<Rightarrow> nat
    \<Rightarrow> cu list" where
  "scan con opn cls s i =
     (if length s \<le> i then []
      else case con s i of
             None \<Rightarrow> s ! i # scan con opn cls s (Suc i)
           | Some (a, b, e) \<Rightarrow>
               if i < e \<and> e \<le> length s
               then opn @ substring s a b @ cls @ scan con opn cls s e
               else s ! i # scan con opn cls s (Suc i))"
  by pat_completeness auto
termination
  by (relation "measure (\<lambda>(con, opn, cls, s, i). length s - i)") auto

declare scan.simps [simp del]

definition bulletStage :: "cu list \<Rightarrow> cu list" where
  "bulletStage s = scan bulletLineAt (js ''<li>'') (js ''</li>'') s 0"

definition groupingStage :: "cu list \<Rightarrow> cu list" where
  "groupingStage s = scan listRunAt (js ''<ul>'') (js ''</ul>'') s 0"

definition boldStage :: "cu list \<Rightarrow> cu list" where
  "boldStage s = scan boldAt (js ''<strong>'') (js ''</strong>'') s 0"

definition italicStage :: "cu list \<Rightarrow> cu list" where
  "italicStage s = scan italicAt (js ''<em>'') (js ''</em>'') s 0"

definition codeStage :: "cu list \<Rightarrow> cu list" where
  "codeStage s = scan codeAt (js ''<code>'') (js ''</code>'') s 0"

section \<open>Notions of the proofs\<close>

text \<open>
  A match from index \<open>i\<close> keeps its capture when the capture lies inside the match and
  every character of the match outside the capture satisfies \<open>Q\<close>.
\<close>

definition keeps :: "(cu \<Rightarrow> bool) \<Rightarrow> cu list \<Rightarrow> nat \<Rightarrow> mstate \<Rightarrow> bool" where
  "keeps Q s i y \<longleftrightarrow>
     (\<exists>a b. capture1 y = Some (a, b) \<and> i \<le> a \<and> a \<le> b \<and> b \<le> endIndex y \<and> endIndex y \<le> length s
        \<and> (\<forall>k. (i \<le> k \<and> k < a) \<or> (b \<le> k \<and> k < endIndex y) \<longrightarrow> Q (s ! k)))"

text \<open>A pattern that consumes only characters satisfying \<open>Q\<close> and sets no capture.\<close>

definition strips :: "(cu \<Rightarrow> bool) \<Rightarrow> re \<Rightarrow> bool" where
  "strips Q r \<longleftrightarrow>
     (\<forall>s m y. y \<in> set (run r s m) \<longrightarrow>
        capture1 y = capture1 m \<and> endIndex m \<le> endIndex y
        \<and> (endIndex m \<le> length s \<longrightarrow> endIndex y \<le> length s)
        \<and> (\<forall>k. endIndex m \<le> k \<and> k < endIndex y \<longrightarrow> Q (s ! k)))"

text \<open>A state before the group: no capture yet, and only \<open>Q\<close> characters consumed.\<close>

definition unmarked :: "(cu \<Rightarrow> bool) \<Rightarrow> cu list \<Rightarrow> nat \<Rightarrow> mstate \<Rightarrow> bool" where
  "unmarked Q s i m \<longleftrightarrow>
     capture1 m = None \<and> i \<le> endIndex m \<and> endIndex m \<le> length s
     \<and> (\<forall>k. i \<le> k \<and> k < endIndex m \<longrightarrow> Q (s ! k))"

text \<open>A pattern that consumes at least one character whenever it matches.\<close>

definition progresses :: "re \<Rightarrow> bool" where
  "progresses a \<longleftrightarrow>
     (\<forall>s m z. z \<in> set (run a s m) \<longrightarrow> endIndex m < endIndex z \<and> endIndex z \<le> length s)"

text \<open>The body of the group of \<open>listRe\<close>: one list item and the whitespace after it.\<close>

definition listItem :: re where
  "listItem = seqs [lit (js ''<li>''), Star False (Cls AnyCu), lit (js ''</li>''),
                    Star True (Cls Space)]"

text \<open>The end of the longest stretch of characters of a class that starts at index \<open>i\<close>.\<close>

definition clsEnd :: "cls \<Rightarrow> cu list \<Rightarrow> nat \<Rightarrow> nat" where
  "clsEnd c s i = i + length (takeWhile (clsMatch c) (drop i s))"

text \<open>A construct of a stage, as the state the matcher returns for it.\<close>

definition found :: "(nat \<times> nat \<times> nat) option \<Rightarrow> mstate option" where
  "found r = map_option (\<lambda>(a, b, e). MState e (Some (a, b))) r"

text \<open>The indices after \<open><li>\<close> at \<open>i\<close> where \<open></li>\<close> starts.\<close>

definition closers :: "cu list \<Rightarrow> nat \<Rightarrow> nat list" where
  "closers s i = filter (startsAt (js ''</li>'') s) [i + 4..<Suc (length s)]"

section \<open>Facts about the matcher and the replacement\<close>

subsection \<open>Stars over a class, sequences, groups\<close>

lemma run_star_cls:
  "y \<in> set (run (Star g (Cls c)) s st) \<Longrightarrow>
     capture1 y = capture1 st \<and> endIndex st \<le> endIndex y
     \<and> (endIndex y = endIndex st \<or> endIndex y \<le> length s)
     \<and> (\<forall>k. endIndex st \<le> k \<and> k < endIndex y \<longrightarrow> clsMatch c (s ! k))"
proof (induction "length s - endIndex st" arbitrary: st rule: less_induct)
  case less
  show ?case
  proof (cases "y = st")
    case True
    then show ?thesis by auto
  next
    case False
    with less.prems obtain z where z: "z \<in> set (run (Cls c) s st)" "endIndex st < endIndex z"
      "endIndex z \<le> length s" "y \<in> set (run (Star g (Cls c)) s z)"
      by (subst (asm) in_run_Star) auto
    from z(1) have zx: "endIndex z = endIndex st + 1" "capture1 z = capture1 st"
      "clsMatch c (s ! endIndex st)" "endIndex st < length s"
      by (auto split: if_splits)
    have "length s - endIndex z < length s - endIndex st" using zx by simp
    from less.hyps [OF this z(4)]
    have h: "capture1 y = capture1 z" "endIndex z \<le> endIndex y"
      "endIndex y = endIndex z \<or> endIndex y \<le> length s"
      "\<And>k. endIndex z \<le> k \<Longrightarrow> k < endIndex y \<Longrightarrow> clsMatch c (s ! k)"
      by auto
    have "clsMatch c (s ! k)" if "endIndex st \<le> k" "k < endIndex y" for k
    proof (cases "k = endIndex st")
      case True
      then show ?thesis using zx by simp
    next
      case False
      then show ?thesis using that zx h(4) [of k] by simp
    qed
    then show ?thesis using h zx z by auto
  qed
qed

lemma in_run_Seq:
  "y \<in> set (run (Seq a b) s st) \<longleftrightarrow> (\<exists>z \<in> set (run a s st). y \<in> set (run b s z))"
  by auto

subsection \<open>What a replacement leaves of the input\<close>

text \<open>
  With a template \<open>p$1q\<close>, a replacement drops from the input exactly the characters of
  each match that lie outside its capture. When all of them satisfy \<open>Q\<close>, the characters
  of the input that do not satisfy \<open>Q\<close> are, in order, a subsequence of the result.
\<close>

lemma filter_substring_empty:
  assumes "b \<le> length s" "\<forall>k. a \<le> k \<and> k < b \<longrightarrow> Q (s ! k)"
  shows "filter (\<lambda>c. \<not> Q c) (substring s a b) = []"
proof -
  have "\<forall>c \<in> set (substring s a b). Q c"
  proof
    fix c assume "c \<in> set (substring s a b)"
    then obtain j where j: "j < length (substring s a b)" "c = substring s a b ! j"
      by (auto simp: in_set_conv_nth)
    then have "j < b - a" "c = s ! (a + j)" using assms(1) by (auto simp: substring_def)
    with assms(2) show "Q c" by auto
  qed
  then show ?thesis by (simp add: filter_empty_conv)
qed

lemma drop_split: "a \<le> b \<Longrightarrow> drop a s = substring s a b @ drop b s"
proof -
  assume "a \<le> b"
  then have "drop b s = drop (b - a) (drop a s)" by simp
  then show ?thesis unfolding substring_def by (simp only: append_take_drop_id)
qed

lemma build_subseq:
  "(\<And>i y. (i, y) \<in> set ms \<Longrightarrow> keeps Q s i y) \<Longrightarrow>
     subseq (filter (\<lambda>c. \<not> Q c) (drop n s)) (build s [Lit p, Cap1, Lit q] n ms)"
proof (induction ms arbitrary: n)
  case Nil
  then show ?case by simp
next
  case (Cons m ms)
  obtain i y where m: "m = (i, y)" by (cases m)
  have IH: "\<And>n. subseq (filter (\<lambda>c. \<not> Q c) (drop n s)) (build s [Lit p, Cap1, Lit q] n ms)"
    using Cons by simp
  show ?case
  proof (cases "n \<le> i")
    case False
    then show ?thesis using IH m by simp
  next
    case True
    from Cons.prems [of i y] m obtain a b where ab: "capture1 y = Some (a, b)" "i \<le> a" "a \<le> b"
      "b \<le> endIndex y" "endIndex y \<le> length s"
      "\<forall>k. i \<le> k \<and> k < a \<longrightarrow> Q (s ! k)" "\<forall>k. b \<le> k \<and> k < endIndex y \<longrightarrow> Q (s ! k)"
      by (auto simp: keeps_def)
    let ?F = "filter (\<lambda>c. \<not> Q c)"
    have d: "drop n s = substring s n i @ substring s i a @ substring s a b @ substring s b (endIndex y) @ drop (endIndex y) s"
      using True ab by (simp add: drop_split [symmetric])
    have e1: "?F (substring s i a) = []" using ab by (intro filter_substring_empty) auto
    have e2: "?F (substring s b (endIndex y)) = []" using ab by (intro filter_substring_empty) auto
    have "?F (drop n s) = ?F (substring s n i) @ ?F (substring s a b) @ ?F (drop (endIndex y) s)"
      by (subst d) (simp add: e1 e2)
    moreover have "subseq (?F (substring s n i) @ ?F (substring s a b) @ ?F (drop (endIndex y) s))
       (substring s n i @ (p @ substring s a b @ q) @ build s [Lit p, Cap1, Lit q] (endIndex y) ms)"
      by (intro list_emb_append_mono subseq_filter_left IH subseq_drop_many subseq_rev_drop_many)
    ultimately show ?thesis using True m ab by simp
  qed
qed

subsection \<open>Literals and sequences of patterns\<close>

lemma js_Nil [simp]: "js [] = []" by (simp add: js_def)

lemma js_Cons: "js (c # cs) = of_char c # js cs" by (simp add: js_def)

lemma seqs_Nil [simp]: "seqs [] = Empty" by (simp add: seqs_def)

lemma seqs_Cons [simp]: "seqs (r # rs) = Seq r (seqs rs)" by (simp add: seqs_def)

lemma lit_Nil [simp]: "lit [] = Empty" by (simp add: lit_def)

lemma lit_Cons [simp]: "lit (c # cs) = Seq (Cls (Ch c)) (lit cs)" by (simp add: lit_def)

lemma run_lit:
  "y \<in> set (run (lit p) s m) \<Longrightarrow>
     capture1 y = capture1 m \<and> endIndex y = endIndex m + length p \<and> endIndex y \<le> max (endIndex m) (length s)
     \<and> (\<forall>k < length p. s ! (endIndex m + k) = p ! k)"
proof (induction p arbitrary: m)
  case Nil
  then show ?case by simp
next
  case (Cons c p)
  from Cons.prems obtain z where z: "z \<in> set (run (Cls (Ch c)) s m)" "y \<in> set (run (lit p) s z)"
    by auto
  from z(1) have zm: "endIndex m < length s" "s ! endIndex m = c" "endIndex z = endIndex m + 1"
    "capture1 z = capture1 m"
    by (auto split: if_splits)
  from Cons.IH [OF z(2)] have h: "capture1 y = capture1 z" "endIndex y = endIndex z + length p"
    "endIndex y \<le> max (endIndex z) (length s)" "\<And>k. k < length p \<Longrightarrow> s ! (endIndex z + k) = p ! k"
    by auto
  have "s ! (endIndex m + k) = (c # p) ! k" if "k < length (c # p)" for k
  proof (cases k)
    case 0
    then show ?thesis using zm by simp
  next
    case (Suc j)
    then show ?thesis using that h(4) [of j] zm by simp
  qed
  then show ?case using h zm by auto
qed

subsection \<open>Patterns that only consume characters of one kind\<close>

lemma stripsD:
  "strips Q r \<Longrightarrow> y \<in> set (run r s m) \<Longrightarrow>
     capture1 y = capture1 m \<and> endIndex m \<le> endIndex y
     \<and> (endIndex m \<le> length s \<longrightarrow> endIndex y \<le> length s)
     \<and> (\<forall>k. endIndex m \<le> k \<and> k < endIndex y \<longrightarrow> Q (s ! k))"
  unfolding strips_def by blast

lemma strips_Empty [simp]: "strips Q Empty"
  by (fastforce simp: strips_def)

lemma strips_Bol [simp]: "strips Q Bol"
  by (fastforce simp: strips_def split: if_splits)

lemma strips_Eol [simp]: "strips Q Eol"
  by (fastforce simp: strips_def split: if_splits)

lemma strips_NotAhead [simp]: "strips Q (NotAhead a)"
  by (fastforce simp: strips_def split: if_splits)

lemma strips_Cls: "(\<And>d. clsMatch c d \<Longrightarrow> Q d) \<Longrightarrow> strips Q (Cls c)"
  by (auto simp: strips_def less_Suc_eq_le split: if_splits)

lemma strips_Seq: "strips Q a \<Longrightarrow> strips Q b \<Longrightarrow> strips Q (Seq a b)"
proof (unfold strips_def, intro allI impI)
  fix s m y
  assume a: "\<forall>s m y. y \<in> set (run a s m) \<longrightarrow>
        capture1 y = capture1 m \<and> endIndex m \<le> endIndex y
        \<and> (endIndex m \<le> length s \<longrightarrow> endIndex y \<le> length s)
        \<and> (\<forall>k. endIndex m \<le> k \<and> k < endIndex y \<longrightarrow> Q (s ! k))"
    and b: "\<forall>s m y. y \<in> set (run b s m) \<longrightarrow>
        capture1 y = capture1 m \<and> endIndex m \<le> endIndex y
        \<and> (endIndex m \<le> length s \<longrightarrow> endIndex y \<le> length s)
        \<and> (\<forall>k. endIndex m \<le> k \<and> k < endIndex y \<longrightarrow> Q (s ! k))"
    and y: "y \<in> set (run (Seq a b) s m)"
  from y obtain z where z: "z \<in> set (run a s m)" "y \<in> set (run b s z)" by auto
  from a z(1) have 1: "capture1 z = capture1 m" "endIndex m \<le> endIndex z"
    "endIndex m \<le> length s \<longrightarrow> endIndex z \<le> length s"
    "\<And>k. endIndex m \<le> k \<Longrightarrow> k < endIndex z \<Longrightarrow> Q (s ! k)" by blast+
  from b z(2) have 2: "capture1 y = capture1 z" "endIndex z \<le> endIndex y"
    "endIndex z \<le> length s \<longrightarrow> endIndex y \<le> length s"
    "\<And>k. endIndex z \<le> k \<Longrightarrow> k < endIndex y \<Longrightarrow> Q (s ! k)" by blast+
  have "Q (s ! k)" if "endIndex m \<le> k" "k < endIndex y" for k
    using that 1(4) [of k] 2(4) [of k] by (cases "k < endIndex z") auto
  then show "capture1 y = capture1 m \<and> endIndex m \<le> endIndex y
        \<and> (endIndex m \<le> length s \<longrightarrow> endIndex y \<le> length s)
        \<and> (\<forall>k. endIndex m \<le> k \<and> k < endIndex y \<longrightarrow> Q (s ! k))"
    using 1 2 by auto
qed

lemma strips_Star_Cls:
  assumes "\<And>d. clsMatch c d \<Longrightarrow> Q d"
  shows "strips Q (Star g (Cls c))"
proof (unfold strips_def, intro allI impI)
  fix s m y
  assume "y \<in> set (run (Star g (Cls c)) s m)"
  from run_star_cls [OF this] assms
  show "capture1 y = capture1 m \<and> endIndex m \<le> endIndex y
        \<and> (endIndex m \<le> length s \<longrightarrow> endIndex y \<le> length s)
        \<and> (\<forall>k. endIndex m \<le> k \<and> k < endIndex y \<longrightarrow> Q (s ! k))"
    by auto
qed

lemma strips_oneOrMore_Cls: "(\<And>d. clsMatch c d \<Longrightarrow> Q d) \<Longrightarrow> strips Q (oneOrMore g (Cls c))"
  unfolding oneOrMore_def by (intro strips_Seq strips_Cls strips_Star_Cls)

lemma strips_lit: "(\<And>d. d \<in> set p \<Longrightarrow> Q d) \<Longrightarrow> strips Q (lit p)"
  by (induction p) (auto intro!: strips_Seq strips_Cls)

lemma unmarked_start: "i \<le> length s \<Longrightarrow> unmarked Q s i (MState i None)"
  by (auto simp: unmarked_def)

lemma unmarked_step:
  assumes "strips Q a" "unmarked Q s i m" "z \<in> set (run a s m)"
  shows "unmarked Q s i z"
proof -
  from stripsD [OF assms(1,3)] have 1: "capture1 z = capture1 m" "endIndex m \<le> endIndex z"
    "endIndex m \<le> length s \<longrightarrow> endIndex z \<le> length s"
    "\<And>k. endIndex m \<le> k \<Longrightarrow> k < endIndex z \<Longrightarrow> Q (s ! k)" by blast+
  from assms(2) have 2: "capture1 m = None" "i \<le> endIndex m" "endIndex m \<le> length s"
    "\<And>k. i \<le> k \<Longrightarrow> k < endIndex m \<Longrightarrow> Q (s ! k)" by (auto simp: unmarked_def)
  have "Q (s ! k)" if "i \<le> k" "k < endIndex z" for k
    using that 1(4) [of k] 2(4) [of k] by (cases "k < endIndex m") auto
  then show ?thesis using 1 2 by (auto simp: unmarked_def)
qed

lemma unmarked_Group:
  assumes "unmarked Q s i m" "z \<in> set (run (Group b) s m)"
  shows "keeps Q s i z"
proof -
  from assms(2) obtain w where w: "w \<in> set (run b s m)"
    "z = MState (endIndex w) (Some (endIndex m, endIndex w))" by auto
  from run_bounds [OF w(1)] assms(1) w(2) show ?thesis
    by (auto simp: keeps_def unmarked_def)
qed

lemma keeps_step:
  assumes "strips Q a" "keeps Q s i m" "z \<in> set (run a s m)"
  shows "keeps Q s i z"
proof -
  from stripsD [OF assms(1,3)] have 1: "capture1 z = capture1 m" "endIndex m \<le> endIndex z"
    "endIndex m \<le> length s \<longrightarrow> endIndex z \<le> length s"
    "\<And>k. endIndex m \<le> k \<Longrightarrow> k < endIndex z \<Longrightarrow> Q (s ! k)" by blast+
  from assms(2) obtain a b where 2: "capture1 m = Some (a, b)" "i \<le> a" "a \<le> b" "b \<le> endIndex m"
    "endIndex m \<le> length s" "\<And>k. i \<le> k \<Longrightarrow> k < a \<Longrightarrow> Q (s ! k)"
    "\<And>k. b \<le> k \<Longrightarrow> k < endIndex m \<Longrightarrow> Q (s ! k)"
    by (auto simp: keeps_def)
  have "Q (s ! k)" if "b \<le> k" "k < endIndex z" for k
    using that 1(4) [of k] 2(7) [of k] by (cases "k < endIndex m") auto
  then show ?thesis using 1 2 unfolding keeps_def by auto
qed

lemma concat_map_concat:
  "concat (map f (concat (map g zs))) = concat (map (\<lambda>z. concat (map f (g z))) zs)"
  by (induction zs) simp_all

lemma run_seqs_append:
  "run (seqs (ps @ qs)) s m = concat (map (run (seqs qs) s) (run (seqs ps) s m))"
proof (induction ps arbitrary: m)
  case Nil
  then show ?case by simp
next
  case (Cons a ps)
  have e: "map (run (seqs (ps @ qs)) s) zs =
        map (\<lambda>z. concat (map (run (seqs qs) s) (run (seqs ps) s z))) zs" for zs
    using Cons.IH by simp
  show ?case by (simp only: append_Cons seqs_Cons run.simps(3) e concat_map_concat)
qed

lemma strips_seqs: "list_all (strips Q) rs \<Longrightarrow> strips Q (seqs rs)"
  by (induction rs) (auto intro: strips_Seq)

lemma keeps_seqs:
  assumes "list_all (strips Q) pre" "list_all (strips Q) post" "i \<le> length s"
    and "y \<in> set (run (seqs (pre @ Group b # post)) s (MState i None))"
  shows "keeps Q s i y"
proof -
  from assms(4) obtain z1 where z1: "z1 \<in> set (run (seqs pre) s (MState i None))"
    "y \<in> set (run (seqs (Group b # post)) s z1)"
    by (auto simp: run_seqs_append)
  from z1(2) obtain z2 where z2: "z2 \<in> set (run (Group b) s z1)" "y \<in> set (run (seqs post) s z2)"
    by (subst (asm) seqs_Cons, subst (asm) in_run_Seq) blast
  from unmarked_step [OF strips_seqs [OF assms(1)] unmarked_start [OF assms(3)] z1(1)]
  have "unmarked Q s i z1" .
  from unmarked_Group [OF this z2(1)] have "keeps Q s i z2" .
  from keeps_step [OF strips_seqs [OF assms(2)] this z2(2)] show ?thesis .
qed

lemma strips_star_lit: "strips strippable (lit (js ''*''))" "strips strippable (lit (js ''**''))"
  "strips strippable (lit (js ''`''))"
  by (rule strips_lit, simp add: strippable_def js_Cons)+

lemma strips_space: "strips strippable (Star g (Cls Space))" "strips strippable (oneOrMore g (Cls Space))"
  by (rule strips_Star_Cls strips_oneOrMore_Cls, simp add: strippable_def)+

lemma strips_marker: "strips strippable (Cls (OneOf (js ''*-'')))"
  by (rule strips_Cls) (auto simp: strippable_def js_Cons)

lemma keeps_bulletRe:
  assumes "i \<le> length s" "y \<in> set (run bulletRe s (MState i None))"
  shows "keeps strippable s i y"
  using assms(2) unfolding bulletRe_def
  by (intro keeps_seqs [where pre = "[Bol, Star True (Cls Space), Cls (OneOf (js ''*-'')),
           oneOrMore True (Cls Space)]" and post = "[Eol]" and b = "oneOrMore True (Cls Dot)", OF _ _ assms(1)])
     (simp_all add: strips_space strips_marker)

lemma keeps_listRe:
  assumes "i \<le> length s" "y \<in> set (run listRe s (MState i None))"
  shows "keeps Q s i y"
  using unmarked_Group [OF unmarked_start [OF assms(1)]] assms(2)
  unfolding listRe_def by blast

lemma keeps_boldRe:
  assumes "i \<le> length s" "y \<in> set (run boldRe s (MState i None))"
  shows "keeps strippable s i y"
  using assms(2) unfolding boldRe_def
  by (intro keeps_seqs [where pre = "[lit (js ''**'')]" and post = "[lit (js ''**'')]"
        and b = "oneOrMore False (Cls Dot)", OF _ _ assms(1)])
     (simp_all add: strips_star_lit)

lemma keeps_italicRe:
  assumes "i \<le> length s" "y \<in> set (run italicRe s (MState i None))"
  shows "keeps strippable s i y"
  using assms(2) unfolding italicRe_def
  by (intro keeps_seqs [where pre = "[lit (js ''*''), NotAhead (Cls Space)]"
        and post = "[lit (js ''*'')]" and b = "oneOrMore False (Cls Dot)", OF _ _ assms(1)])
     (simp_all add: strips_star_lit)

lemma keeps_codeRe:
  assumes "i \<le> length s" "y \<in> set (run codeRe s (MState i None))"
  shows "keeps strippable s i y"
  using assms(2) unfolding codeRe_def
  by (intro keeps_seqs [where pre = "[lit (js ''`'')]" and post = "[lit (js ''`'')]"
        and b = "oneOrMore False (Cls Dot)", OF _ _ assms(1)])
     (simp_all add: strips_star_lit)

lemma matchAt_in_run: "matchAt r s i = Some y \<Longrightarrow> y \<in> set (run r s (MState i None))"
  by (auto simp: matchAt_def split: list.splits)

lemma collect_sound:
  "(i, y) \<in> set (collect r s li) \<Longrightarrow> i \<le> length s \<and> matchAt r s i = Some y"
proof (induction r s li rule: collect.induct)
  case (1 r s li)
  show ?case
  proof (cases "execFrom r s li")
    case None
    with "1.prems" show ?thesis by (subst (asm) collect.simps) simp
  next
    case (Some m)
    obtain j z where m: "m = (j, z)" by (cases m)
    from "1.prems" Some m have
      "(i, y) = (j, z) \<or> (i, y) \<in> set (collect r s (if endIndex z = j then endIndex z + 1 else endIndex z))"
      by (subst (asm) collect.simps) simp
    then show ?thesis
    proof
      assume "(i, y) = (j, z)"
      with execFrom_bounds [of r s li j z] Some m show ?thesis by simp
    next
      assume "(i, y) \<in> set (collect r s (if endIndex z = j then endIndex z + 1 else endIndex z))"
      with "1.IH" [OF Some m [symmetric]] show ?thesis by simp
    qed
  qed
qed

lemma replaceAll_subseq:
  assumes "\<And>i y. i \<le> length s \<Longrightarrow> y \<in> set (run r s (MState i None)) \<Longrightarrow> keeps Q s i y"
  shows "subseq (filter (\<lambda>c. \<not> Q c) s) (replaceAll r [Lit p, Cap1, Lit q] s)"
proof -
  have "keeps Q s i y" if "(i, y) \<in> set (collect r s 0)" for i y
    using collect_sound [OF that] assms matchAt_in_run by blast
  from build_subseq [of "collect r s 0" Q s 0 p q, OF this] show ?thesis
    by (simp add: replaceAll_def)
qed

lemma subseq_stage:
  assumes "subseq (filter P s) t" "subseq (filter P t) u"
  shows "subseq (filter P s) u"
proof -
  from assms(1) have "subseq (filter P (filter P s)) (filter P t)" by (rule subseq_filter)
  then have "subseq (filter P s) (filter P t)" by simp
  then show ?thesis using assms(2) by (rule subseq_order.trans)
qed

lemma renderMarkdown_keeps_unstrippable:
  "subseq (filter (\<lambda>c. \<not> strippable c) s) (renderMarkdown s)"
  unfolding renderMarkdown_def Let_def
  by (intro subseq_stage [OF _ replaceAll_subseq] replaceAll_subseq
      keeps_bulletRe keeps_listRe keeps_boldRe keeps_italicRe keeps_codeRe)

subsection \<open>A pattern that matches nowhere changes nothing\<close>

lemma execFrom_None:
  "(\<And>i. i \<le> length s \<Longrightarrow> run r s (MState i None) = []) \<Longrightarrow> execFrom r s li = None"
proof (induction r s li rule: execFrom.induct)
  case (1 r s li)
  show ?case
  proof (cases "length s < li")
    case True
    then show ?thesis by (subst execFrom.simps) simp
  next
    case False
    then have m: "matchAt r s li = None" using "1.prems" [of li] by (simp add: matchAt_def)
    from "1.IH" [OF False m] "1.prems" have "execFrom r s (li + 1) = None" by simp
    with False m show ?thesis by (subst execFrom.simps) simp
  qed
qed

lemma replaceAll_no_match:
  assumes "\<And>i. i \<le> length s \<Longrightarrow> run r s (MState i None) = []"
  shows "replaceAll r tmpl s = s"
proof -
  have "execFrom r s 0 = None" using assms by (rule execFrom_None)
  then have "collect r s 0 = []" by (subst collect.simps) simp
  then show ?thesis by (simp add: replaceAll_def)
qed

lemma run_lit_head:
  "y \<in> set (run (seqs (lit (c # p) # rs)) s m) \<Longrightarrow> c \<in> set s"
proof -
  assume "y \<in> set (run (seqs (lit (c # p) # rs)) s m)"
  then have "endIndex m < length s \<and> s ! endIndex m = c"
    by (auto split: if_splits)
  then show ?thesis by (metis nth_mem)
qed

lemma no_star_boldRe: "of_char CHR ''*'' \<notin> set s \<Longrightarrow> run boldRe s m = []"
proof (rule ccontr)
  assume a: "of_char CHR ''*'' \<notin> set s" "run boldRe s m \<noteq> []"
  then obtain y where "y \<in> set (run boldRe s m)" by (cases "run boldRe s m") auto
  then have "of_char CHR ''*'' \<in> set s"
    unfolding boldRe_def js_Cons by (rule run_lit_head)
  with a show False by simp
qed

lemma no_star_italicRe: "of_char CHR ''*'' \<notin> set s \<Longrightarrow> run italicRe s m = []"
proof (rule ccontr)
  assume a: "of_char CHR ''*'' \<notin> set s" "run italicRe s m \<noteq> []"
  then obtain y where "y \<in> set (run italicRe s m)" by (cases "run italicRe s m") auto
  then have "of_char CHR ''*'' \<in> set s"
    unfolding italicRe_def js_Cons by (rule run_lit_head)
  with a show False by simp
qed

lemma no_tick_codeRe: "of_char CHR ''`'' \<notin> set s \<Longrightarrow> run codeRe s m = []"
proof (rule ccontr)
  assume a: "of_char CHR ''`'' \<notin> set s" "run codeRe s m \<noteq> []"
  then obtain y where "y \<in> set (run codeRe s m)" by (cases "run codeRe s m") auto
  then have "of_char CHR ''`'' \<in> set s"
    unfolding codeRe_def js_Cons by (rule run_lit_head)
  with a show False by simp
qed

lemma startsAtI:
  assumes "i + length p \<le> length s" "\<And>k. k < length p \<Longrightarrow> s ! (i + k) = p ! k"
  shows "startsAt p s i"
proof -
  have "take (length p) (drop i s) = p"
    using assms by (intro nth_equalityI) auto
  then show ?thesis unfolding startsAt_def by (metis take_is_prefix)
qed

lemma run_lit_startsAt:
  assumes "endIndex m \<le> length s" "y \<in> set (run (lit p) s m)"
  shows "startsAt p s (endIndex m) \<and> endIndex y = endIndex m + length p \<and> endIndex y \<le> length s"
  using run_lit [OF assms(2)] assms(1) by (auto intro!: startsAtI)

subsection \<open>A match of the bullet or grouping pattern shows its marker in the input\<close>

lemma set_takeWhile_append:
  "set (takeWhile P (xs @ ys)) \<subseteq> set xs \<union> set (takeWhile P ys)"
  by (induction xs) auto

lemma takeWhile_rev_take_stop:
  assumes "0 < i" "i \<le> length s" "\<not> P (s ! (i - 1))"
  shows "takeWhile P (rev (take i s)) = []"
proof -
  have "take i s \<noteq> []" using assms by auto
  moreover have "last (take i s) = s ! (i - 1)"
    by (subst last_conv_nth) (use assms in auto)
  ultimately have "hd (rev (take i s)) = s ! (i - 1)" "rev (take i s) \<noteq> []"
    by (simp_all add: hd_rev)
  then show ?thesis using assms(3) by (cases "rev (take i s)") auto
qed

lemma line_start_white:
  assumes "i \<le> j" "j \<le> length s"
    and "i = 0 \<or> isLineTerminator (s ! (i - 1))"
    and "\<And>k. i \<le> k \<Longrightarrow> k < j \<Longrightarrow> isWhiteSpace (s ! k)"
  shows "list_all isWhiteSpace (takeWhile (\<lambda>c. \<not> isLineTerminator c) (rev (take j s)))"
proof -
  let ?P = "\<lambda>c. \<not> isLineTerminator c"
  have "take j s = take i s @ substring s i j"
    using assms(1) by (simp add: substring_def take_add [symmetric])
  then have r: "rev (take j s) = rev (substring s i j) @ rev (take i s)" by simp
  have t: "takeWhile ?P (rev (take i s)) = []"
  proof (cases "i = 0")
    case True
    then show ?thesis by simp
  next
    case False
    with assms show ?thesis by (intro takeWhile_rev_take_stop) auto
  qed
  have w: "\<forall>c \<in> set (substring s i j). isWhiteSpace c"
  proof
    fix c assume "c \<in> set (substring s i j)"
    then obtain k where "k < length (substring s i j)" "c = substring s i j ! k"
      by (auto simp: in_set_conv_nth)
    then have "k < j - i" "c = s ! (i + k)" using assms(2) by (auto simp: substring_def)
    then show "isWhiteSpace c" using assms(4) [of "i + k"] by simp
  qed
  have "set (takeWhile ?P (rev (take j s))) \<subseteq> set (rev (substring s i j)) \<union> set (takeWhile ?P (rev (take i s)))"
    unfolding r by (rule set_takeWhile_append)
  with t w show ?thesis by (auto simp: list_all_iff)
qed

lemma bulletRe_hasBulletLine:
  assumes "i \<le> length s" "y \<in> set (run bulletRe s (MState i None))"
  shows "hasBulletLine s"
proof -
  from assms(2) obtain z1 z2 z3 where
    bol: "i = 0 \<or> isLineTerminator (s ! (i - 1))"
    and z1: "z1 \<in> set (run (Star True (Cls Space)) s (MState i None))"
    and z2: "z2 \<in> set (run (Cls (OneOf (js ''*-''))) s z1)"
    and z3: "z3 \<in> set (run (Cls Space) s z2)"
    by (auto simp: bulletRe_def oneOrMore_def split: if_splits)
  from run_star_cls [OF z1] assms(1) have 1: "i \<le> endIndex z1" "endIndex z1 \<le> length s"
    "\<And>k. i \<le> k \<Longrightarrow> k < endIndex z1 \<Longrightarrow> isWhiteSpace (s ! k)" by auto
  from z2 have 2: "endIndex z1 < length s" "s ! endIndex z1 \<in> set (js ''*-'')"
    "endIndex z2 = endIndex z1 + 1" by (auto split: if_splits)
  from z3 2 have 3: "endIndex z1 + 1 < length s" "isWhiteSpace (s ! (endIndex z1 + 1))"
    by (auto split: if_splits)
  have "bulletAt s (endIndex z1)"
    unfolding bulletAt_def using 2 3 line_start_white [OF 1(1,2) bol 1(3)] by simp
  with 2(1) show ?thesis unfolding hasBulletLine_def list_ex_iff by auto
qed

lemma listRe_hasListItem:
  assumes "i \<le> length s" "y \<in> set (run listRe s (MState i None))"
  shows "hasListItem s"
proof -
  from assms(2) obtain z1 z2 z3 where
    z1: "z1 \<in> set (run (lit (js ''<li>'')) s (MState i None))"
    and z2: "z2 \<in> set (run (Star False (Cls AnyCu)) s z1)"
    and z3: "z3 \<in> set (run (lit (js ''</li>'')) s z2)"
    by (auto simp: listRe_def oneOrMore_def)
  from run_lit_startsAt [OF _ z1] assms(1)
  have 1: "startsAt (js ''<li>'') s i" "endIndex z1 = i + 4" "endIndex z1 \<le> length s"
    by (simp_all add: js_def)
  from run_bounds [OF z2] 1 have 2: "i + 4 \<le> endIndex z2" "endIndex z2 \<le> length s" by auto
  from run_lit_startsAt [OF 2(2) z3]
  have 3: "startsAt (js ''</li>'') s (endIndex z2)" "endIndex z2 + 5 \<le> length s"
    by (simp_all add: js_def)
  from 1 2 3 show ?thesis
    unfolding hasListItem_def list_ex_iff
    by (intro bexI [of _ i] conjI bexI [of _ "endIndex z2"]) auto
qed

lemma no_member_empty: "(\<And>y. y \<in> set zs \<Longrightarrow> False) \<Longrightarrow> zs = []"
  by (cases zs) auto

lemma renderMarkdown_plain:
  assumes "of_char CHR ''*'' \<notin> set s" "of_char CHR ''`'' \<notin> set s"
    "\<not> hasBulletLine s" "\<not> hasListItem s"
  shows "renderMarkdown s = s"
proof -
  have 1: "replaceAll bulletRe t s = s" for t
  proof (rule replaceAll_no_match, rule no_member_empty)
    fix i y assume "i \<le> length s" "y \<in> set (run bulletRe s (MState i None))"
    then show False using assms(3) bulletRe_hasBulletLine by blast
  qed
  have 2: "replaceAll listRe t s = s" for t
  proof (rule replaceAll_no_match, rule no_member_empty)
    fix i y assume "i \<le> length s" "y \<in> set (run listRe s (MState i None))"
    then show False using assms(4) listRe_hasListItem by blast
  qed
  have 3: "replaceAll boldRe t s = s" for t
    using assms(1) by (intro replaceAll_no_match no_star_boldRe)
  have 4: "replaceAll italicRe t s = s" for t
    using assms(1) by (intro replaceAll_no_match no_star_italicRe)
  have 5: "replaceAll codeRe t s = s" for t
    using assms(2) by (intro replaceAll_no_match no_tick_codeRe)
  show ?thesis by (simp add: renderMarkdown_def 1 2 3 4 5)
qed

subsection \<open>The first result of a greedy repetition\<close>

text \<open>
  When every iteration consumes something, the first result of a greedy star is reached
  by taking the first result of the body again and again until the body fails; the body
  then has no match at the state reached.
\<close>

lemma strips_Star:
  assumes "strips Q a"
  shows "strips Q (Star g a)"
proof (unfold strips_def, intro allI impI)
  fix s m y
  assume "y \<in> set (run (Star g a) s m)"
  then show "capture1 y = capture1 m \<and> endIndex m \<le> endIndex y
        \<and> (endIndex m \<le> length s \<longrightarrow> endIndex y \<le> length s)
        \<and> (\<forall>k. endIndex m \<le> k \<and> k < endIndex y \<longrightarrow> Q (s ! k))"
  proof (induction "length s - endIndex m" arbitrary: m rule: less_induct)
    case less
    show ?case
    proof (cases "y = m")
      case True
      then show ?thesis by auto
    next
      case False
      with less.prems obtain z where z: "z \<in> set (run a s m)" "endIndex m < endIndex z"
        "endIndex z \<le> length s" "y \<in> set (run (Star g a) s z)"
        by (subst (asm) in_run_Star) auto
      from stripsD [OF assms z(1)] have 1: "capture1 z = capture1 m"
        "\<And>k. endIndex m \<le> k \<Longrightarrow> k < endIndex z \<Longrightarrow> Q (s ! k)" by blast+
      have "length s - endIndex z < length s - endIndex m" using z by simp
      from less.hyps [OF this z(4)] have 2: "capture1 y = capture1 z" "endIndex z \<le> endIndex y"
        "endIndex z \<le> length s \<longrightarrow> endIndex y \<le> length s"
        "\<And>k. endIndex z \<le> k \<Longrightarrow> k < endIndex y \<Longrightarrow> Q (s ! k)" by blast+
      have "Q (s ! k)" if "endIndex m \<le> k" "k < endIndex y" for k
        using that 1(2) [of k] 2(4) [of k] by (cases "k < endIndex z") auto
      then show ?thesis using 1 2 z by auto
    qed
  qed
qed

lemma run_Star_nonempty: "run (Star g a) s m \<noteq> []"
  by (subst run.simps(4)) (simp add: Let_def)

lemma hd_concat_map:
  "zs \<noteq> [] \<Longrightarrow> (\<And>z. z \<in> set zs \<Longrightarrow> f z \<noteq> []) \<Longrightarrow>
     concat (map f zs) \<noteq> [] \<and> hd (concat (map f zs)) = hd (f (hd zs))"
  by (cases zs) auto

lemma progressesD:
  "progresses a \<Longrightarrow> z \<in> set (run a s m) \<Longrightarrow> endIndex m < endIndex z \<and> endIndex z \<le> length s"
  unfolding progresses_def by blast

lemma run_Star_greedy_unfold:
  assumes "progresses a"
  shows "run (Star True a) s m = concat (map (run (Star True a) s) (run a s m)) @ [m]"
proof -
  have e: "map (\<lambda>y. if endIndex m < endIndex y \<and> endIndex y \<le> length s
                    then run (Star True a) s y else []) (run a s m)
        = map (run (Star True a) s) (run a s m)"
    using assms by (auto simp: progresses_def)
  show ?thesis by (subst run.simps(4)) (simp only: Let_def e if_True)
qed

lemma hd_Star_greedy:
  assumes "progresses a" and "\<And>m'. run a s m' \<noteq> [] \<Longrightarrow> P (hd (run a s m'))" and "P m"
  shows "P (hd (run (Star True a) s m)) \<and> run a s (hd (run (Star True a) s m)) = []"
  using assms(3)
proof (induction "length s - endIndex m" arbitrary: m rule: less_induct)
  case less
  show ?case
  proof (cases "run a s m = []")
    case True
    then have "run (Star True a) s m = [m]"
      by (subst run_Star_greedy_unfold [OF assms(1)]) simp
    with True less.prems show ?thesis by simp
  next
    case False
    let ?z = "hd (run a s m)"
    from False have zin: "?z \<in> set (run a s m)" by simp
    with assms(1) have "endIndex m < endIndex ?z" "endIndex ?z \<le> length s"
      by (auto simp: progresses_def)
    then have d: "length s - endIndex ?z < length s - endIndex m" by simp
    from hd_concat_map [of "run a s m" "run (Star True a) s", OF False run_Star_nonempty]
    have "hd (run (Star True a) s m) = hd (run (Star True a) s ?z)"
      by (subst run_Star_greedy_unfold [OF assms(1)]) simp
    with less.hyps [OF d assms(2) [OF False]] show ?thesis by simp
  qed
qed

lemma listRe_listItem: "listRe = Group (oneOrMore True listItem)"
  by (simp add: listRe_def listItem_def)

lemma progresses_Cls: "progresses (Cls c)"
  by (auto simp: progresses_def split: if_splits)

lemma progresses_listItem: "progresses listItem"
proof (unfold progresses_def, intro allI impI)
  fix s m z
  assume "z \<in> set (run listItem s m)"
  then obtain z1 where z1: "z1 \<in> set (run (lit (js ''<li>'')) s m)"
    "z \<in> set (run (seqs [Star False (Cls AnyCu), lit (js ''</li>''), Star True (Cls Space)]) s z1)"
    unfolding listItem_def by (subst (asm) seqs_Cons, subst (asm) in_run_Seq) blast
  from run_lit [OF z1(1)] have "endIndex z1 = endIndex m + 4" "endIndex z1 \<le> length s"
    by (auto simp: js_def)
  with run_bounds [OF z1(2)] show "endIndex m < endIndex z \<and> endIndex z \<le> length s" by auto
qed

lemma strips_listItem: "strips (\<lambda>c. True) listItem"
  unfolding listItem_def
  by (intro strips_seqs) (simp add: strips_lit strips_Star strips_Cls)

lemma run_seqs_single: "run (seqs [a]) s = run a s"
proof
  fix m
  have "run Empty s = (\<lambda>y. [y])" by (rule ext) simp
  then show "run (seqs [a]) s m = run a s m" by simp
qed

lemma hd_listItem:
  assumes "run listItem s m \<noteq> []"
  shows "\<not> (endIndex (hd (run listItem s m)) < length s
            \<and> isWhiteSpace (s ! endIndex (hd (run listItem s m))))"
proof -
  let ?pre = "[lit (js ''<li>''), Star False (Cls AnyCu), lit (js ''</li>'')]"
  let ?sp = "Star True (Cls Space)"
  have e: "run listItem s m = concat (map (run ?sp s) (run (seqs ?pre) s m))"
    unfolding listItem_def
    using run_seqs_append [of ?pre "[?sp]" s m] by (simp only: append.simps run_seqs_single)
  with assms have ne: "run (seqs ?pre) s m \<noteq> []"
    by (auto simp del: seqs_Cons seqs_Nil lit_Cons)
  from hd_concat_map [of "run (seqs ?pre) s m" "run ?sp s", OF ne run_Star_nonempty] e
  have h: "hd (run listItem s m) = hd (run ?sp s (hd (run (seqs ?pre) s m)))" by simp
  from hd_Star_greedy [of "Cls Space" s "\<lambda>_. True", OF progresses_Cls]
  have "run (Cls Space) s (hd (run ?sp s (hd (run (seqs ?pre) s m)))) = []" by simp
  with h show ?thesis by (auto split: if_splits)
qed

lemma listRe_closedRun:
  assumes "i \<le> length s" "matchAt listRe s i = Some y"
  shows "closedRun s (i, y)"
proof -
  let ?m0 = "MState i None"
  let ?star = "Star True listItem"
  let ?body = "run (Seq listItem ?star) s ?m0"
  let ?P = "\<lambda>w. \<not> (endIndex w < length s \<and> isWhiteSpace (s ! endIndex w))"
  have r: "run listRe s ?m0 = map (\<lambda>w. MState (endIndex w) (Some (i, endIndex w))) ?body"
    by (simp add: listRe_listItem oneOrMore_def)
  from assms(2) have "run listRe s ?m0 \<noteq> []" "y = hd (run listRe s ?m0)"
    by (auto simp: matchAt_def split: list.splits)
  then have ne: "?body \<noteq> []"
    and y: "y = MState (endIndex (hd ?body)) (Some (i, endIndex (hd ?body)))"
    unfolding r by (simp_all add: hd_map)
  from ne have ne1: "run listItem s ?m0 \<noteq> []" by auto
  let ?z1 = "hd (run listItem s ?m0)"
  from hd_concat_map [of "run listItem s ?m0" "run ?star s", OF ne1 run_Star_nonempty]
  have hb: "hd ?body = hd (run ?star s ?z1)" by simp
  let ?w = "hd (run ?star s ?z1)"
  from hd_Star_greedy [of listItem s ?P ?z1, OF progresses_listItem hd_listItem hd_listItem [OF ne1]]
  have w: "?P ?w" "run listItem s ?w = []" by blast+
  have z1in: "?z1 \<in> set (run listItem s ?m0)" using ne1 by simp
  have win: "?w \<in> set (run ?star s ?z1)" using run_Star_nonempty by simp
  from stripsD [OF strips_listItem z1in] stripsD [OF strips_Star [OF strips_listItem] win]
  have cap: "capture1 ?w = None" by simp
  from progressesD [OF progresses_listItem z1in]
  have p1: "i < endIndex ?z1" "endIndex ?z1 \<le> length s" by simp_all
  from run_bounds [OF win] p1 have p2: "i < endIndex ?w" "endIndex ?w \<le> length s" by auto
  have "?w = MState (endIndex ?w) None" using cap by (cases ?w) simp
  with w(2) have "run listItem s (MState (endIndex ?w) None) = []" by simp
  then have "matchAt listRe s (endIndex ?w) = None"
    by (simp add: matchAt_def listRe_listItem oneOrMore_def)
  with w(1) p2 y hb show ?thesis by (simp add: closedRun_def)
qed

lemma collect_listRe:
  "list_all (closedRun s) (collect listRe s li) \<and> separated s (collect listRe s li)"
proof (induction listRe s li rule: collect.induct)
  case (1 s li)
  show ?case
  proof (cases "execFrom listRe s li")
    case None
    then show ?thesis by (subst (1 2) collect.simps) simp
  next
    case (Some m)
    obtain i y where m: "m = (i, y)" by (cases m)
    from execFrom_bounds [of listRe s li i y] Some m
    have b: "i \<le> length s" "matchAt listRe s i = Some y" by auto
    from listRe_closedRun [OF b] have c: "closedRun s (i, y)" .
    then have ne: "endIndex y \<noteq> i" by (auto simp: closedRun_def)
    let ?rest = "collect listRe s (endIndex y)"
    have e: "collect listRe s li = (i, y) # ?rest"
      using Some m ne by (subst collect.simps) simp
    from "1.hyps" [OF Some m [symmetric]] ne
    have IH: "list_all (closedRun s) ?rest" "separated s ?rest" by auto
    have "separated s ((i, y) # ?rest)"
    proof (cases "execFrom listRe s (endIndex y)")
      case None
      then have "?rest = []" by (subst collect.simps) simp
      then show ?thesis by simp
    next
      case (Some m2)
      obtain i2 y2 where m2: "m2 = (i2, y2)" by (cases m2)
      from execFrom_bounds [of listRe s "endIndex y" i2 y2] Some m2
      have b2: "endIndex y \<le> i2" "i2 \<le> length s" "matchAt listRe s i2 = Some y2" by auto
      from c b2 have lt: "endIndex y < i2" "\<not> isWhiteSpace (s ! endIndex y)"
        by (auto simp: closedRun_def le_less)
      have "?rest = (i2, y2) # collect listRe s (if endIndex y2 = i2 then endIndex y2 + 1 else endIndex y2)"
        using Some m2 by (subst collect.simps) simp
      with IH(2) lt show ?thesis by simp
    qed
    with c IH(1) e show ?thesis by simp
  qed
qed

subsection \<open>The number of matches, and the rest\<close>

lemma collect_length: "length (collect r s li) \<le> length s + 1 - li"
proof (induction r s li rule: collect.induct)
  case (1 r s li)
  show ?case
  proof (cases "execFrom r s li")
    case None
    then show ?thesis by (subst collect.simps) simp
  next
    case (Some m)
    obtain i y where m: "m = (i, y)" by (cases m)
    let ?next = "if endIndex y = i then endIndex y + 1 else endIndex y"
    from execFrom_bounds [of r s li i y] Some m
    have b: "li \<le> i" "i \<le> length s" "i \<le> endIndex y" by auto
    then have "li < ?next" by auto
    moreover have "length (collect r s ?next) \<le> length s + 1 - ?next"
      using "1.IH" [OF Some m [symmetric]] .
    moreover have "collect r s li = (i, y) # collect r s ?next"
      using Some m by (subst collect.simps) simp
    ultimately show ?thesis using b by simp
  qed
qed

lemma angleBracket_not_strippable: "angleBracket c \<Longrightarrow> \<not> strippable c"
  by (auto simp: angleBracket_def strippable_def js_Cons isWhiteSpace_def isLineTerminator_def)

lemma fetch_fallbacks:
  "fetchThesis (Inl e) = Inr \<lparr>title = js ''Thesis'', summary = None, abstract = None, assets = None\<rparr>"
  "fetchRepos (Inl e) = Inr []" "fetchThesis_home (Inl e) = Inr None" "fetchProfile (Inl e) = Inr None"
  "fetchThesis (Inr \<lparr>ok = False, json = j1\<rparr>)
     = Inr \<lparr>title = js ''Thesis'', summary = None, abstract = None, assets = None\<rparr>"
  "fetchRepos (Inr \<lparr>ok = False, json = j2\<rparr>) = Inr []"
  "fetchThesis_home (Inr \<lparr>ok = False, json = j1\<rparr>) = Inr None"
  "fetchProfile (Inr \<lparr>ok = False, json = j3\<rparr>) = Inr None"
  by (simp_all add: fetchThesis_def fetchRepos_def fetchThesis_home_def fetchProfile_def)

subsection \<open>Repetition of a class and literal text, in closed form\<close>

text \<open>
  The results of a star over a class are the indices up to the end of the stretch of that
  class, the longest first when the star is greedy; a literal matches where its text
  starts.
\<close>

lemma clsEnd_step:
  "i < length s \<Longrightarrow> clsMatch c (s ! i) \<Longrightarrow> clsEnd c s i = clsEnd c s (Suc i)"
  by (simp add: clsEnd_def Cons_nth_drop_Suc [symmetric])

lemma clsEnd_stop:
  "\<not> (i < length s \<and> clsMatch c (s ! i)) \<Longrightarrow> clsEnd c s i = i"
  by (cases "i < length s") (simp_all add: clsEnd_def Cons_nth_drop_Suc [symmetric])

lemma clsEnd_ge: "i \<le> clsEnd c s i"
  by (simp add: clsEnd_def)

lemma clsEnd_le: "i \<le> length s \<Longrightarrow> clsEnd c s i \<le> length s"
proof -
  assume "i \<le> length s"
  have "length (takeWhile (clsMatch c) (drop i s)) \<le> length (drop i s)"
    by (rule length_takeWhile_le)
  then show ?thesis using \<open>i \<le> length s\<close> by (simp add: clsEnd_def)
qed

lemma run_star_enum:
  "run (Star g (Cls c)) s (MState i cap) =
     map (\<lambda>k. MState k cap) (if g then rev [i..<Suc (clsEnd c s i)] else [i..<Suc (clsEnd c s i)])"
proof (induction "length s - i" arbitrary: i rule: less_induct)
  case less
  show ?case
  proof (cases "i < length s \<and> clsMatch c (s ! i)")
    case False
    then have "run (Cls c) s (MState i cap) = []" by auto
    then have "run (Star g (Cls c)) s (MState i cap) = [MState i cap]"
      by (subst run.simps(4)) (simp add: Let_def)
    with clsEnd_stop [OF False] show ?thesis by simp
  next
    case True
    then have c: "run (Cls c) s (MState i cap) = [MState (Suc i) cap]" by simp
    have "length s - Suc i < length s - i" using True by linarith
    from less [OF this]
    have IH: "run (Star g (Cls c)) s (MState (Suc i) cap) =
       map (\<lambda>k. MState k cap)
         (if g then rev [Suc i..<Suc (clsEnd c s (Suc i))] else [Suc i..<Suc (clsEnd c s (Suc i))])" .
    have e: "clsEnd c s i = clsEnd c s (Suc i)" using True by (simp add: clsEnd_step)
    have le: "Suc i \<le> clsEnd c s (Suc i)" by (rule clsEnd_ge)
    have u: "[i..<Suc (clsEnd c s (Suc i))] = i # [Suc i..<Suc (clsEnd c s (Suc i))]"
      using le by (simp add: upt_conv_Cons)
    have "run (Star g (Cls c)) s (MState i cap) =
        (if g then run (Star g (Cls c)) s (MState (Suc i) cap) @ [MState i cap]
         else MState i cap # run (Star g (Cls c)) s (MState (Suc i) cap))"
      using True by (subst run.simps(4)) (simp add: Let_def c)
    then show ?thesis unfolding IH e u by simp
  qed
qed

lemma startsAt_Nil [simp]: "startsAt [] s i"
  by (simp add: startsAt_def)

lemma startsAt_Cons:
  "startsAt (c # d) s i \<longleftrightarrow> i < length s \<and> s ! i = c \<and> startsAt d s (Suc i)"
proof (cases "i < length s")
  case True
  then show ?thesis by (auto simp: startsAt_def Cons_nth_drop_Suc [symmetric])
next
  case False
  then show ?thesis by (simp add: startsAt_def)
qed

lemma run_lit_eq:
  "run (lit d) s (MState i cap) = (if startsAt d s i then [MState (i + length d) cap] else [])"
  by (induction d arbitrary: i) (auto simp: startsAt_Cons)

lemma concat_map_if:
  "concat (map (\<lambda>k. if P k then [f k] else []) ks) = map f (filter P ks)"
  by (induction ks) simp_all

lemma first_of_filter:
  "(case map f (filter P ks) of [] \<Rightarrow> None | y # _ \<Rightarrow> Some y) = map_option f (find P ks)"
  by (induction ks) simp_all

subsection \<open>The patterns of bold, italic and inline code find the delimited text\<close>

lemma lineEnd_clsEnd: "lineEnd s i = clsEnd Dot s i"
proof -
  have "clsMatch Dot = (\<lambda>c. \<not> isLineTerminator c)" by (rule ext) simp
  then show ?thesis by (simp add: lineEnd_def clsEnd_def)
qed

lemma spaceEnd_clsEnd: "spaceEnd s i = clsEnd Space s i"
proof -
  have "clsMatch Space = isWhiteSpace" by (rule ext) simp
  then show ?thesis by (simp add: spaceEnd_def clsEnd_def)
qed

lemma run_group_dots:
  "run (Group (oneOrMore g (Cls Dot))) s (MState a cap) =
     map (\<lambda>k. MState k (Some (a, k)))
       (if g then rev [a + 1..<Suc (lineEnd s a)] else [a + 1..<Suc (lineEnd s a)])"
proof (cases "a < length s \<and> clsMatch Dot (s ! a)")
  case True
  then have "clsEnd Dot s (Suc a) = lineEnd s a"
    by (simp add: lineEnd_clsEnd clsEnd_step)
  with True show ?thesis
    by (simp add: oneOrMore_def run_star_enum comp_def rev_map)
next
  case False
  then have "lineEnd s a = a" unfolding lineEnd_clsEnd by (rule clsEnd_stop)
  with False show ?thesis by (auto simp: oneOrMore_def)
qed

lemma run_lit_last:
  "concat (map (run (seqs [lit d]) s) (map (\<lambda>k. MState k (Some (a, k))) ks)) =
     map (\<lambda>k. MState (k + length d) (Some (a, k))) (filter (startsAt d s) ks)"
  by (induction ks) (simp_all add: run_lit_eq)

lemma matchAt_span:
  "matchAt (seqs [lit d, Group (oneOrMore False (Cls Dot)), lit d]) s i = found (delimitedAt d s i)"
proof (cases "startsAt d s i")
  case False
  then show ?thesis by (simp add: matchAt_def run_lit_eq delimitedAt_def found_def)
next
  case True
  have "run (seqs [lit d, Group (oneOrMore False (Cls Dot)), lit d]) s (MState i None) =
      concat (map (run (seqs [lit d]) s) (run (Group (oneOrMore False (Cls Dot))) s (MState (i + length d) None)))"
    using True by (simp add: run_lit_eq del: lit_Cons)
  also have "\<dots> = map (\<lambda>k. MState (k + length d) (Some (i + length d, k)))
       (filter (startsAt d s) [i + length d + 1..<Suc (lineEnd s (i + length d))])"
    unfolding run_group_dots by (simp only: if_False run_lit_last)
  finally show ?thesis
    using True
    by (simp add: matchAt_def first_of_filter delimitedAt_def nearestClose_def found_def
        option.map_comp comp_def del: upt_Suc)
qed

lemma matchAt_boldRe: "matchAt boldRe s i = found (boldAt s i)"
  unfolding boldRe_def boldAt_def by (rule matchAt_span)

lemma matchAt_codeRe: "matchAt codeRe s i = found (codeAt s i)"
  unfolding codeRe_def codeAt_def by (rule matchAt_span)

lemma matchAt_italicRe: "matchAt italicRe s i = found (italicAt s i)"
proof (cases "startsAt (js ''*'') s i")
  case False
  then show ?thesis
    by (simp add: matchAt_def italicRe_def run_lit_eq italicAt_def delimitedAt_def found_def
        del: lit_Cons)
next
  case True
  have len: "length (js ''*'') = 1" by (simp add: js_def)
  show ?thesis
  proof (cases "i + 1 < length s \<and> isWhiteSpace (s ! (i + 1))")
    case True
    with \<open>startsAt (js ''*'') s i\<close> show ?thesis
      by (simp add: matchAt_def italicRe_def run_lit_eq italicAt_def found_def len del: lit_Cons)
  next
    case False
    then have na: "run (NotAhead (Cls Space)) s (MState (i + 1) None) = [MState (i + 1) None]"
      by auto
    have "run italicRe s (MState i None) =
        concat (map (run (seqs [lit (js ''*'')]) s)
          (run (Group (oneOrMore False (Cls Dot))) s (MState (i + 1) None)))"
      using \<open>startsAt (js ''*'') s i\<close> na
      by (simp add: italicRe_def run_lit_eq len del: lit_Cons run.simps(2,6))
    also have "\<dots> = map (\<lambda>k. MState (k + 1) (Some (i + 1, k)))
         (filter (startsAt (js ''*'') s) [i + 1 + 1..<Suc (lineEnd s (i + 1))])"
      unfolding run_group_dots by (simp only: if_False run_lit_last len)
    finally show ?thesis
      using \<open>startsAt (js ''*'') s i\<close> False
      by (auto simp add: matchAt_def first_of_filter italicAt_def delimitedAt_def nearestClose_def
          found_def option.map_comp comp_def len simp del: upt_Suc)
  qed
qed

subsection \<open>The bullet pattern finds the bullet line\<close>

lemma run_Bol_eq: "run Bol s (MState i cap) = (if atLineStart s i then [MState i cap] else [])"
  by (simp add: atLineStart_def)

lemma in_space_run:
  assumes "i \<le> k" "k < clsEnd c s i"
  shows "k < length s \<and> clsMatch c (s ! k)"
proof -
  let ?t = "takeWhile (clsMatch c) (drop i s)"
  from assms have k: "k - i < length ?t" by (simp add: clsEnd_def)
  then have "?t ! (k - i) \<in> set ?t" by (rule nth_mem)
  then have "clsMatch c (?t ! (k - i))" by (rule set_takeWhileD [THEN conjunct2])
  moreover have "?t ! (k - i) = drop i s ! (k - i)" using k by (rule takeWhile_nth)
  moreover have "length ?t \<le> length (drop i s)" by (rule length_takeWhile_le)
  with k have kl: "k - i < length (drop i s)" by simp
  ultimately show ?thesis using assms(1) by (simp add: less_diff_conv2)
qed

lemma marker_not_space: "c \<in> set (js ''*-'') \<Longrightarrow> \<not> isWhiteSpace c"
  by (auto simp: js_Cons isWhiteSpace_def isLineTerminator_def)

lemma concat_map_rev_last:
  assumes "\<And>k. i \<le> k \<Longrightarrow> k < n \<Longrightarrow> f k = []" "i \<le> n"
  shows "concat (map f (rev [i..<Suc n])) = f n"
proof -
  have "concat (map f (rev [i..<n])) = []" using assms(1) by (auto simp: concat_eq_Nil_conv)
  then show ?thesis using assms(2) by simp
qed

lemma clsEnd_stops:
  assumes "clsEnd c s i < length s"
  shows "\<not> clsMatch c (s ! clsEnd c s i)"
proof -
  let ?t = "takeWhile (clsMatch c) (drop i s)"
  from assms have "length ?t < length (drop i s)" by (simp add: clsEnd_def)
  then have "\<not> clsMatch c (drop i s ! length ?t)" by (rule nth_length_takeWhile)
  then show ?thesis using assms by (simp add: clsEnd_def)
qed

lemma run_Eol_eq:
  "run (seqs [Eol]) s (MState k cap) =
     (if k = length s \<or> (k < length s \<and> isLineTerminator (s ! k)) then [MState k cap] else [])"
  by simp

lemma run_text_eol:
  "run (seqs [Group (oneOrMore True (Cls Dot)), Eol]) s (MState j cap) =
     (if j < length s \<and> \<not> isLineTerminator (s ! j)
      then [MState (lineEnd s j) (Some (j, lineEnd s j))] else [])"
proof -
  let ?L = "lineEnd s j"
  let ?f = "\<lambda>k. run (seqs [Eol]) s (MState k (Some (j, k)))"
  have e: "run (seqs [Group (oneOrMore True (Cls Dot)), Eol]) s (MState j cap) =
      concat (map ?f (rev [j + 1..<Suc ?L]))"
    by (simp add: run_group_dots comp_def del: run.simps(5) run.simps(8) upt_Suc)
  show ?thesis
  proof (cases "j < length s \<and> \<not> isLineTerminator (s ! j)")
    case False
    then have "?L = j" unfolding lineEnd_clsEnd by (intro clsEnd_stop) simp
    then show ?thesis using False unfolding e by simp
  next
    case True
    have lt: "j + 1 \<le> ?L"
      using True clsEnd_ge [of "Suc j" Dot s] by (simp add: lineEnd_clsEnd clsEnd_step)
    have le: "?L \<le> length s" using True unfolding lineEnd_clsEnd by (intro clsEnd_le) simp
    have stop: "?L = length s \<or> (?L < length s \<and> isLineTerminator (s ! ?L))"
      using le clsEnd_stops [of Dot s j] by (auto simp: lineEnd_clsEnd)
    have inner: "?f k = []" if "j + 1 \<le> k" "k < ?L" for k
      using in_space_run [of j k Dot s] that unfolding run_Eol_eq by (simp add: lineEnd_clsEnd)
    have "concat (map ?f (rev [j + 1..<Suc ?L])) = ?f ?L"
      using inner lt by (rule concat_map_rev_last)
    then show ?thesis using True stop unfolding e run_Eol_eq by auto
  qed
qed

lemma run_after_space:
  "run (seqs [oneOrMore True (Cls Space), Group (oneOrMore True (Cls Dot)), Eol]) s (MState m None) =
     (if m < length s \<and> isWhiteSpace (s ! m)
      then map (\<lambda>j. MState (lineEnd s j) (Some (j, lineEnd s j)))
             (filter (\<lambda>j. j < length s \<and> \<not> isLineTerminator (s ! j))
                (rev [m + 1..<Suc (spaceEnd s (m + 1))]))
      else [])"
proof (cases "m < length s \<and> isWhiteSpace (s ! m)")
  case False
  then show ?thesis by (auto simp: oneOrMore_def)
next
  case True
  let ?tail = "seqs [Group (oneOrMore True (Cls Dot)), Eol]"
  have "run (seqs [oneOrMore True (Cls Space), Group (oneOrMore True (Cls Dot)), Eol]) s (MState m None) =
      concat (map (run ?tail s) (run (oneOrMore True (Cls Space)) s (MState m None)))"
    by (simp del: run.simps(5) run.simps(8))
  also have "run (oneOrMore True (Cls Space)) s (MState m None) =
      map (\<lambda>j. MState j None) (rev [m + 1..<Suc (spaceEnd s (m + 1))])"
    using True by (simp add: oneOrMore_def run_star_enum spaceEnd_clsEnd del: upt_Suc)
  also have "concat (map (run ?tail s) (map (\<lambda>j. MState j None) (rev [m + 1..<Suc (spaceEnd s (m + 1))]))) =
      map (\<lambda>j. MState (lineEnd s j) (Some (j, lineEnd s j)))
             (filter (\<lambda>j. j < length s \<and> \<not> isLineTerminator (s ! j))
                (rev [m + 1..<Suc (spaceEnd s (m + 1))]))"
    unfolding map_map comp_def run_text_eol by (rule concat_map_if)
  finally show ?thesis using True by simp
qed

lemma matchAt_bulletRe: "matchAt bulletRe s i = found (bulletLineAt s i)"
proof (cases "atLineStart s i")
  case False
  then show ?thesis
    by (simp add: matchAt_def bulletRe_def run_Bol_eq bulletLineAt_def found_def Let_def
        del: run.simps(7))
next
  case True
  let ?k = "spaceEnd s i"
  let ?r1 = "seqs [Cls (OneOf (js ''*-'')), oneOrMore True (Cls Space),
                   Group (oneOrMore True (Cls Dot)), Eol]"
  let ?r2 = "seqs [oneOrMore True (Cls Space), Group (oneOrMore True (Cls Dot)), Eol]"
  let ?f = "\<lambda>k. run ?r1 s (MState k None)"
  have r1: "?f k = (if k < length s \<and> s ! k \<in> set (js ''*-'') then run ?r2 s (MState (k + 1) None) else [])"
    for k
    by (auto simp del: run.simps(5) run.simps(8))
  have skip: "?f k = []" if "i \<le> k" "k < ?k" for k
    using in_space_run [of i k Space s] that marker_not_space [of "s ! k"]
    unfolding r1 by (auto simp: spaceEnd_clsEnd)
  have "run bulletRe s (MState i None) = concat (map ?f (rev [i..<Suc ?k]))"
    using True
    by (simp add: bulletRe_def run_Bol_eq run_star_enum spaceEnd_clsEnd comp_def
        del: run.simps(2,5,7,8) upt_Suc)
  also have "\<dots> = ?f ?k"
  proof (rule concat_map_rev_last)
    show "i \<le> ?k" unfolding spaceEnd_clsEnd by (rule clsEnd_ge)
  qed (rule skip)
  finally have "run bulletRe s (MState i None) = ?f ?k" .
  then have m: "matchAt bulletRe s i = (case ?f ?k of [] \<Rightarrow> None | y # _ \<Rightarrow> Some y)"
    by (simp only: matchAt_def)
  let ?c = "?k + 1 < length s \<and> s ! ?k \<in> set (js ''*-'') \<and> isWhiteSpace (s ! (?k + 1))"
  let ?js = "rev [?k + 2..<Suc (spaceEnd s (?k + 2))]"
  let ?P = "\<lambda>j. j < length s \<and> \<not> isLineTerminator (s ! j)"
  have b: "bulletLineAt s i =
      (if ?c then map_option (\<lambda>j. (j, lineEnd s j, lineEnd s j)) (find ?P ?js) else None)"
    using True by (simp only: bulletLineAt_def Let_def simp_thms)
  show ?thesis
  proof (cases ?c)
    case False
    then have F: "?f ?k = []" unfolding r1 run_after_space by auto
    have "bulletLineAt s i = None" unfolding b using False by (rule if_not_P)
    then show ?thesis unfolding m F by (simp add: found_def)
  next
    case c: True
    then have F: "?f ?k = map (\<lambda>j. MState (lineEnd s j) (Some (j, lineEnd s j))) (filter ?P ?js)"
      unfolding r1 run_after_space by (simp add: add.commute del: upt_Suc)
    have "bulletLineAt s i = map_option (\<lambda>j. (j, lineEnd s j, lineEnd s j)) (find ?P ?js)"
      unfolding b using c by (rule if_P)
    then show ?thesis unfolding m F
      by (simp add: first_of_filter found_def option.map_comp comp_def del: upt_Suc)
  qed
qed

subsection \<open>The grouping pattern finds the run of list items\<close>

lemma run_lit_after:
  "concat (map (run (seqs [lit d]) s) (map (\<lambda>k. MState k cap) ks)) =
     map (\<lambda>k. MState (k + length d) cap) (filter (startsAt d s) ks)"
  by (induction ks) (simp_all add: run_lit_eq)

lemma clsEnd_AnyCu: "j \<le> length s \<Longrightarrow> clsEnd AnyCu s j = length s"
proof -
  have "clsMatch AnyCu = (\<lambda>c. True)" by (rule ext) simp
  then show "j \<le> length s \<Longrightarrow> clsEnd AnyCu s j = length s"
    by (simp add: clsEnd_def takeWhile_eq_all_conv [THEN iffD2])
qed

lemma startsAt_length: "startsAt d s i \<Longrightarrow> d \<noteq> [] \<Longrightarrow> i + length d \<le> length s"
proof -
  assume "startsAt d s i" "d \<noteq> []"
  then have "length d \<le> length (drop i s)"
    using prefix_length_le [of d "drop i s"] unfolding startsAt_def by blast
  then show ?thesis using \<open>d \<noteq> []\<close> by (cases d) auto
qed

lemma run_listItem_eq:
  "run listItem s (MState i None) =
     (if startsAt (js ''<li>'') s i
      then concat (map (\<lambda>k. map (\<lambda>e. MState e None) (rev [k + 5..<Suc (spaceEnd s (k + 5))]))
                    (closers s i))
      else [])"
proof (cases "startsAt (js ''<li>'') s i")
  case False
  then show ?thesis by (simp add: listItem_def run_lit_eq del: lit_Cons)
next
  case True
  let ?pre = "[lit (js ''<li>''), Star False (Cls AnyCu), lit (js ''</li>'')]"
  let ?sp = "Star True (Cls Space)"
  have l4: "length (js ''<li>'') = 4" and l5: "length (js ''</li>'') = 5" by (simp_all add: js_def)
  from startsAt_length [OF True] have i4: "i + 4 \<le> length s" by (simp add: l4 js_Cons)
  have e: "run listItem s (MState i None) = concat (map (run ?sp s) (run (seqs ?pre) s (MState i None)))"
    unfolding listItem_def
    using run_seqs_append [of ?pre "[?sp]" s "MState i None"]
    by (simp only: append.simps run_seqs_single)
  have "run (seqs ?pre) s (MState i None) =
      concat (map (run (seqs [lit (js ''</li>'')]) s)
        (map (\<lambda>k. MState k None) [i + 4..<Suc (length s)]))"
    using True i4
    by (simp add: run_lit_eq run_star_enum l4 clsEnd_AnyCu del: lit_Cons upt_Suc run.simps(2))
  also have "\<dots> = map (\<lambda>k. MState (k + 5) None) (closers s i)"
    unfolding run_lit_after closers_def l5 ..
  finally have p: "run (seqs ?pre) s (MState i None) = map (\<lambda>k. MState (k + 5) None) (closers s i)" .
  show ?thesis
    unfolding e p using True
    by (simp add: comp_def run_star_enum spaceEnd_clsEnd del: upt_Suc)
qed

lemma closers_find: "find (startsAt (js ''</li>'') s) [i + 4..<Suc (length s)] =
    (case closers s i of [] \<Rightarrow> None | k # _ \<Rightarrow> Some k)"
  unfolding closers_def
  using first_of_filter [of "\<lambda>k. k" "startsAt (js ''</li>'') s" "[i + 4..<Suc (length s)]"]
  by (simp add: option.map_ident del: upt_Suc)

lemma space_range_nonempty: "rev [k + 5..<Suc (spaceEnd s (k + 5))] \<noteq> []"
  using clsEnd_ge [of "k + 5" Space s] by (simp add: spaceEnd_clsEnd)

lemma space_ranges_empty:
  "concat (map (\<lambda>k. map g (rev [k + 5..<Suc (spaceEnd s (k + 5))])) ks) = [] \<longleftrightarrow> ks = []"
  using space_range_nonempty by (cases ks) (auto simp del: upt_Suc)

lemma listItem_none: "run listItem s (MState i None) = [] \<longleftrightarrow> itemAt s i = None"
proof (cases "startsAt (js ''<li>'') s i")
  case False
  then show ?thesis by (simp add: run_listItem_eq itemAt_def)
next
  case True
  then have "run listItem s (MState i None) = [] \<longleftrightarrow> closers s i = []"
    unfolding run_listItem_eq by (simp only: if_True space_ranges_empty)
  moreover have "itemAt s i = None \<longleftrightarrow> closers s i = []"
    using True unfolding itemAt_def closers_find by (cases "closers s i") simp_all
  ultimately show ?thesis by simp
qed

lemma listItem_first:
  assumes "itemAt s i = Some e"
  shows "hd (run listItem s (MState i None)) = MState e None"
proof -
  from assms have st: "startsAt (js ''<li>'') s i" by (auto simp: itemAt_def split: if_splits)
  from assms st obtain k ks where k: "closers s i = k # ks" "e = spaceEnd s (k + 5)"
    unfolding itemAt_def closers_find by (cases "closers s i") auto
  have "k + 5 \<le> spaceEnd s (k + 5)" unfolding spaceEnd_clsEnd by (rule clsEnd_ge)
  then have "hd (rev [k + 5..<Suc (spaceEnd s (k + 5))]) = spaceEnd s (k + 5)"
    by (simp add: hd_rev)
  moreover have "rev [k + 5..<Suc (spaceEnd s (k + 5))] \<noteq> []"
    using \<open>k + 5 \<le> spaceEnd s (k + 5)\<close> by simp
  ultimately show ?thesis
    unfolding run_listItem_eq using st k by (simp add: hd_map del: upt_Suc)
qed

lemma hd_star_listItem:
  "hd (run (Star True listItem) s (MState i None)) = MState (itemsEnd s i) None"
proof (induction s i rule: itemsEnd.induct)
  case (1 s i)
  show ?case
  proof (cases "itemAt s i")
    case None
    then have "run listItem s (MState i None) = []" by (simp add: listItem_none)
    then have "run (Star True listItem) s (MState i None) = [MState i None]"
      by (subst run_Star_greedy_unfold [OF progresses_listItem]) simp
    with None show ?thesis by (subst itemsEnd.simps) simp
  next
    case (Some e)
    let ?m = "MState i None"
    have ne: "run listItem s ?m \<noteq> []" using Some by (simp add: listItem_none)
    from listItem_first [OF Some] have h: "hd (run listItem s ?m) = MState e None" .
    with ne have "MState e None \<in> set (run listItem s ?m)" by (metis hd_in_set)
    from progressesD [OF progresses_listItem this] have b: "i < e" "e \<le> length s" by simp_all
    from hd_concat_map [of "run listItem s ?m" "run (Star True listItem) s", OF ne run_Star_nonempty]
    have "hd (run (Star True listItem) s ?m) = hd (run (Star True listItem) s (MState e None))"
      by (subst run_Star_greedy_unfold [OF progresses_listItem]) (simp add: h)
    also have "\<dots> = MState (itemsEnd s e) None" using "1.IH" [OF Some] b by simp
    also have "itemsEnd s e = itemsEnd s i" using Some b by (subst (2) itemsEnd.simps) simp
    finally show ?thesis .
  qed
qed

lemma matchAt_listRe: "matchAt listRe s i = found (listRunAt s i)"
proof (cases "itemAt s i")
  case None
  then have "run listItem s (MState i None) = []" by (simp add: listItem_none)
  then show ?thesis
    using None by (simp add: matchAt_def listRe_listItem oneOrMore_def listRunAt_def found_def)
next
  case (Some e)
  let ?m = "MState i None"
  let ?body = "run (Seq listItem (Star True listItem)) s ?m"
  have ne: "run listItem s ?m \<noteq> []" using Some by (simp add: listItem_none)
  from hd_concat_map [of "run listItem s ?m" "run (Star True listItem) s", OF ne run_Star_nonempty]
  have "?body \<noteq> []" "hd ?body = hd (run (Star True listItem) s (hd (run listItem s ?m)))"
    by simp_all
  then have hb: "?body \<noteq> []" "hd ?body = MState (itemsEnd s e) None"
    by (simp_all add: listItem_first [OF Some] hd_star_listItem)
  have "run listRe s ?m = map (\<lambda>w. MState (endIndex w) (Some (i, endIndex w))) ?body"
    by (simp add: listRe_listItem oneOrMore_def)
  with hb have "matchAt listRe s i = Some (MState (itemsEnd s e) (Some (i, itemsEnd s e)))"
    by (cases ?body) (simp_all add: matchAt_def)
  then show ?thesis using Some by (simp add: listRunAt_def found_def)
qed

subsection \<open>A global replacement is one scan\<close>

text \<open>
  When the match of a pattern at every index is the construct of a stage, and a construct
  is never empty, the global replacement with the template \<open>p$1q\<close> is the scan of
  that stage.
\<close>

lemma build_skip:
  assumes "n < length s" "\<And>p y. (p, y) \<in> set (take 1 ms) \<Longrightarrow> n < p"
  shows "build s tmpl n ms = s ! n # build s tmpl (Suc n) ms"
proof (cases ms)
  case Nil
  then show ?thesis using assms(1) by (simp add: Cons_nth_drop_Suc)
next
  case (Cons m rest)
  obtain p y where m: "m = (p, y)" by (cases m)
  with Cons assms(2) [of p y] have "n < p" by simp
  then have "substring s n p = s ! n # substring s (Suc n) p"
    using assms(1)
    by (simp add: substring_def Cons_nth_drop_Suc [symmetric] take_Cons' Suc_diff_Suc)
  with Cons m \<open>n < p\<close> show ?thesis by simp
qed

lemma collect_head:
  "(p, y) \<in> set (take 1 (collect r s n)) \<Longrightarrow> n \<le> p"
proof -
  assume a: "(p, y) \<in> set (take 1 (collect r s n))"
  show "n \<le> p"
  proof (cases "execFrom r s n")
    case None
    with a show ?thesis by (subst (asm) collect.simps) simp
  next
    case (Some m)
    obtain q z where m: "m = (q, z)" by (cases m)
    with a Some have "(p, y) = (q, z)" by (subst (asm) collect.simps) simp
    with execFrom_bounds [of r s n q z] Some m show ?thesis by simp
  qed
qed

lemma replaceAll_scan_from:
  assumes eq: "\<And>i. matchAt r s i = found (con s i)"
    and prog: "\<And>i a b e. con s i = Some (a, b, e) \<Longrightarrow> i < e"
  shows "n \<le> length s \<Longrightarrow> build s [Lit opn, Cap1, Lit cls] n (collect r s n) = scan con opn cls s n"
proof (induction "length s - n" arbitrary: n rule: less_induct)
  case less
  let ?t = "[Lit opn, Cap1, Lit cls]"
  show ?case
  proof (cases "con s n")
    case None
    then have m: "matchAt r s n = None" by (simp add: eq found_def)
    show ?thesis
    proof (cases "n = length s")
      case True
      then have "execFrom r s (Suc n) = None" by (subst execFrom.simps) simp
      with m True have "execFrom r s n = None" by (subst execFrom.simps) simp
      then have "collect r s n = []" by (subst collect.simps) simp
      with True show ?thesis by (subst scan.simps) simp
    next
      case False
      with less.prems have lt: "n < length s" by simp
      from m lt have "execFrom r s n = execFrom r s (Suc n)" by (subst execFrom.simps) simp
      then have c: "collect r s n = collect r s (Suc n)"
        by (subst collect.simps, subst (2) collect.simps) simp
      have "build s ?t n (collect r s (Suc n)) = s ! n # build s ?t (Suc n) (collect r s (Suc n))"
      proof (rule build_skip [OF lt])
        fix p y assume "(p, y) \<in> set (take 1 (collect r s (Suc n)))"
        from collect_head [OF this] show "n < p" by simp
      qed
      also have "build s ?t (Suc n) (collect r s (Suc n)) = scan con opn cls s (Suc n)"
        using lt by (intro less.hyps) auto
      finally show ?thesis using None lt unfolding c by (subst scan.simps) simp
    qed
  next
    case (Some t)
    obtain a b e where t: "t = (a, b, e)" by (cases t)
    with Some have c: "con s n = Some (a, b, e)" by simp
    then have m: "matchAt r s n = Some (MState e (Some (a, b)))" by (simp add: eq found_def)
    from prog [OF c] matchAt_bounds [OF m] less.prems have b: "n < e" "e \<le> length s" by simp_all
    from m less.prems have "execFrom r s n = Some (n, MState e (Some (a, b)))"
      by (subst execFrom.simps) simp
    then have "collect r s n = (n, MState e (Some (a, b))) # collect r s e"
      using b by (subst collect.simps) simp
    moreover have "build s ?t e (collect r s e) = scan con opn cls s e"
      using b by (intro less.hyps) auto
    ultimately show ?thesis using c b by (subst scan.simps) (simp add: substring_def)
  qed
qed

lemma replaceAll_scan:
  assumes "\<And>i. matchAt r s i = found (con s i)"
    and "\<And>i a b e. con s i = Some (a, b, e) \<Longrightarrow> i < e"
  shows "replaceAll r [Lit opn, Cap1, Lit cls] s = scan con opn cls s 0"
  unfolding replaceAll_def using assms by (intro replaceAll_scan_from) auto

subsection \<open>The stages agree with the replacements of the source\<close>

lemma find_SomeD: "find P ks = Some k \<Longrightarrow> k \<in> set ks \<and> P k"
  by (induction ks) (auto split: if_splits)

lemma nearestClose_gt:
  "nearestClose d s a = Some k \<Longrightarrow> a < k \<and> k \<le> lineEnd s a \<and> startsAt d s k"
  unfolding nearestClose_def by (drule find_SomeD) auto

lemma delimitedAt_progress: "delimitedAt d s i = Some (a, b, e) \<Longrightarrow> i < e"
  unfolding delimitedAt_def by (auto split: if_splits dest!: nearestClose_gt)

lemma boldAt_progress: "boldAt s i = Some (a, b, e) \<Longrightarrow> i < e"
  unfolding boldAt_def by (rule delimitedAt_progress)

lemma codeAt_progress: "codeAt s i = Some (a, b, e) \<Longrightarrow> i < e"
  unfolding codeAt_def by (rule delimitedAt_progress)

lemma italicAt_progress: "italicAt s i = Some (a, b, e) \<Longrightarrow> i < e"
  unfolding italicAt_def by (auto split: if_splits dest: delimitedAt_progress)

lemma bulletLineAt_progress: "bulletLineAt s i = Some (a, b, e) \<Longrightarrow> i < e"
proof -
  assume "bulletLineAt s i = Some (a, b, e)"
  then have j: "spaceEnd s i + 2 \<le> a" "e = lineEnd s a"
    unfolding bulletLineAt_def Let_def
    by (auto split: if_splits dest!: find_SomeD simp del: upt_Suc)
  have "i \<le> spaceEnd s i" "a \<le> lineEnd s a"
    unfolding spaceEnd_clsEnd lineEnd_clsEnd by (rule clsEnd_ge)+
  with j show ?thesis by auto
qed

lemma itemAt_progress: "itemAt s i = Some e \<Longrightarrow> i < e"
proof -
  assume "itemAt s i = Some e"
  then obtain k where k: "k \<in> set [i + 4..<Suc (length s)]" "e = spaceEnd s (k + 5)"
    unfolding itemAt_def by (auto split: if_splits dest!: find_SomeD simp del: upt_Suc)
  have "k + 5 \<le> spaceEnd s (k + 5)" unfolding spaceEnd_clsEnd by (rule clsEnd_ge)
  with k show ?thesis by auto
qed

lemma itemsEnd_ge: "i \<le> itemsEnd s i"
proof (induction s i rule: itemsEnd.induct)
  case (1 s i)
  show ?case
  proof (cases "itemAt s i")
    case None
    then show ?thesis by (subst itemsEnd.simps) simp
  next
    case (Some e)
    show ?thesis
    proof (cases "i < e \<and> e \<le> length s")
      case True
      with "1.IH" [OF Some] Some show ?thesis by (subst itemsEnd.simps) simp
    next
      case False
      with Some show ?thesis by (subst itemsEnd.simps) auto
    qed
  qed
qed

lemma listRunAt_progress: "listRunAt s i = Some (a, b, e) \<Longrightarrow> i < e"
  unfolding listRunAt_def using itemsEnd_ge itemAt_progress
  by (fastforce simp: less_le_trans)

lemma stages_refine:
  "replaceAll bulletRe [Lit (js ''<li>''), Cap1, Lit (js ''</li>'')] s = bulletStage s"
  "replaceAll listRe [Lit (js ''<ul>''), Cap1, Lit (js ''</ul>'')] s = groupingStage s"
  "replaceAll boldRe [Lit (js ''<strong>''), Cap1, Lit (js ''</strong>'')] s = boldStage s"
  "replaceAll italicRe [Lit (js ''<em>''), Cap1, Lit (js ''</em>'')] s = italicStage s"
  "replaceAll codeRe [Lit (js ''<code>''), Cap1, Lit (js ''</code>'')] s = codeStage s"
  unfolding bulletStage_def groupingStage_def boldStage_def italicStage_def codeStage_def
  by (rule replaceAll_scan, rule matchAt_bulletRe matchAt_listRe matchAt_boldRe matchAt_italicRe
      matchAt_codeRe, erule bulletLineAt_progress listRunAt_progress boldAt_progress
      italicAt_progress codeAt_progress)+

lemma renderMarkdown_stages:
  "renderMarkdown s = codeStage (italicStage (boldStage (groupingStage (bulletStage s))))"
  by (simp add: renderMarkdown_def stages_refine)

subsection \<open>A replacement wraps its captures\<close>

lemma wrapping_refl: "wrapping Q opn cls s s"
  by (induction s) (auto intro: wrapping.intros)

lemma wrapping_prepend: "wrapping Q opn cls s t \<Longrightarrow> wrapping Q opn cls (u @ s) (u @ t)"
  by (induction u) (auto intro: wrapping.intros)

lemma list_all_substring:
  assumes "b \<le> length s" "\<forall>k. a \<le> k \<and> k < b \<longrightarrow> Q (s ! k)"
  shows "list_all Q (substring s a b)"
proof -
  have "\<forall>c \<in> set (substring s a b). Q c"
  proof
    fix c assume "c \<in> set (substring s a b)"
    then obtain j where j: "j < length (substring s a b)" "c = substring s a b ! j"
      by (auto simp: in_set_conv_nth)
    then have "j < b - a" "c = s ! (a + j)" using assms(1) by (auto simp: substring_def)
    with assms(2) show "Q c" by auto
  qed
  then show ?thesis by (simp add: list_all_iff)
qed

lemma build_wrapping:
  "(\<And>i y. (i, y) \<in> set ms \<Longrightarrow> keeps Q s i y) \<Longrightarrow>
     wrapping Q p q (drop n s) (build s [Lit p, Cap1, Lit q] n ms)"
proof (induction ms arbitrary: n)
  case Nil
  then show ?case by (simp add: wrapping_refl)
next
  case (Cons m ms)
  obtain i y where m: "m = (i, y)" by (cases m)
  have IH: "\<And>n. wrapping Q p q (drop n s) (build s [Lit p, Cap1, Lit q] n ms)"
    using Cons by simp
  show ?case
  proof (cases "n \<le> i")
    case False
    then show ?thesis using IH m by simp
  next
    case True
    from Cons.prems [of i y] m obtain a b where ab: "capture1 y = Some (a, b)" "i \<le> a" "a \<le> b"
      "b \<le> endIndex y" "endIndex y \<le> length s"
      "\<forall>k. i \<le> k \<and> k < a \<longrightarrow> Q (s ! k)" "\<forall>k. b \<le> k \<and> k < endIndex y \<longrightarrow> Q (s ! k)"
      by (auto simp: keeps_def)
    have d: "drop n s = substring s n i @ substring s i a @ substring s a b @ substring s b (endIndex y) @ drop (endIndex y) s"
      using True ab by (simp add: drop_split [symmetric])
    have e1: "list_all Q (substring s i a)" using ab by (intro list_all_substring) auto
    have e2: "list_all Q (substring s b (endIndex y))" using ab by (intro list_all_substring) auto
    have "wrapping Q p q
            (substring s n i @ substring s i a @ substring s a b @ substring s b (endIndex y) @ drop (endIndex y) s)
            (substring s n i @ p @ substring s a b @ q @ build s [Lit p, Cap1, Lit q] (endIndex y) ms)"
      by (intro wrapping_prepend wrapping.wrap e1 e2 IH)
    then show ?thesis using True m ab d by simp
  qed
qed

lemma replaceAll_wrapping:
  assumes "\<And>i y. i \<le> length s \<Longrightarrow> y \<in> set (run r s (MState i None)) \<Longrightarrow> keeps Q s i y"
  shows "wrapping Q p q s (replaceAll r [Lit p, Cap1, Lit q] s)"
proof -
  have "keeps Q s i y" if "(i, y) \<in> set (collect r s 0)" for i y
    using collect_sound [OF that] assms matchAt_in_run by blast
  from build_wrapping [of "collect r s 0" Q s p q 0, OF this] show ?thesis
    by (simp add: replaceAll_def)
qed

lemma renderMarkdown_wrapping:
  "\<exists>w1 w2 w3 w4.
      wrapping strippable (js ''<li>'') (js ''</li>'') s w1
    \<and> wrapping (\<lambda>c. False) (js ''<ul>'') (js ''</ul>'') w1 w2
    \<and> wrapping strippable (js ''<strong>'') (js ''</strong>'') w2 w3
    \<and> wrapping strippable (js ''<em>'') (js ''</em>'') w3 w4
    \<and> wrapping strippable (js ''<code>'') (js ''</code>'') w4 (renderMarkdown s)"
proof -
  define w1 where "w1 = replaceAll bulletRe [Lit (js ''<li>''), Cap1, Lit (js ''</li>'')] s"
  define w2 where "w2 = replaceAll listRe [Lit (js ''<ul>''), Cap1, Lit (js ''</ul>'')] w1"
  define w3 where "w3 = replaceAll boldRe [Lit (js ''<strong>''), Cap1, Lit (js ''</strong>'')] w2"
  define w4 where "w4 = replaceAll italicRe [Lit (js ''<em>''), Cap1, Lit (js ''</em>'')] w3"
  have r: "renderMarkdown s = replaceAll codeRe [Lit (js ''<code>''), Cap1, Lit (js ''</code>'')] w4"
    by (simp add: renderMarkdown_def w1_def w2_def w3_def w4_def)
  have "wrapping strippable (js ''<li>'') (js ''</li>'') s w1"
    unfolding w1_def by (rule replaceAll_wrapping) (rule keeps_bulletRe)
  moreover have "wrapping (\<lambda>c. False) (js ''<ul>'') (js ''</ul>'') w1 w2"
    unfolding w2_def by (rule replaceAll_wrapping) (rule keeps_listRe)
  moreover have "wrapping strippable (js ''<strong>'') (js ''</strong>'') w2 w3"
    unfolding w3_def by (rule replaceAll_wrapping) (rule keeps_boldRe)
  moreover have "wrapping strippable (js ''<em>'') (js ''</em>'') w3 w4"
    unfolding w4_def by (rule replaceAll_wrapping) (rule keeps_italicRe)
  moreover have "wrapping strippable (js ''<code>'') (js ''</code>'') w4 (renderMarkdown s)"
    unfolding r by (rule replaceAll_wrapping) (rule keeps_codeRe)
  ultimately show ?thesis by blast
qed

lemma wrapping_set: "wrapping Q opn cls s t \<Longrightarrow> set t \<subseteq> set s \<union> set opn \<union> set cls"
  by (induction rule: wrapping.induct) auto

lemma renderMarkdown_chars:
  "set (renderMarkdown s) \<subseteq> set s \<union> set (js ''</li></ul></strong></em></code>'')"
proof -
  obtain w1 w2 w3 w4 where
    "wrapping strippable (js ''<li>'') (js ''</li>'') s w1"
    "wrapping (\<lambda>c. False) (js ''<ul>'') (js ''</ul>'') w1 w2"
    "wrapping strippable (js ''<strong>'') (js ''</strong>'') w2 w3"
    "wrapping strippable (js ''<em>'') (js ''</em>'') w3 w4"
    "wrapping strippable (js ''<code>'') (js ''</code>'') w4 (renderMarkdown s)"
    using renderMarkdown_wrapping by blast
  from this [THEN wrapping_set] show ?thesis
    by (simp add: js_Cons subset_iff) blast
qed

subsection \<open>The stages on known text\<close>

lemma scan_end: "length s \<le> i \<Longrightarrow> scan con opn cls s i = []"
  by (subst scan.simps) simp

lemma scan_miss: "i < length s \<Longrightarrow> con s i = None \<Longrightarrow> scan con opn cls s i = s ! i # scan con opn cls s (Suc i)"
  by (subst scan.simps) simp

lemma scan_hit:
  "con s i = Some (a, b, e) \<Longrightarrow> i < e \<Longrightarrow> e \<le> length s \<Longrightarrow>
     scan con opn cls s i = opn @ substring s a b @ cls @ scan con opn cls s e"
  by (subst scan.simps) simp

lemma scan_none:
  assumes "\<And>j. con s j = None"
  shows "scan con opn cls s i = drop i s"
proof (induction "length s - i" arbitrary: i)
  case 0
  then show ?case by (simp add: scan_end)
next
  case (Suc n)
  then have i: "i < length s" by simp
  from Suc(1) [of "Suc i"] Suc(2) have "scan con opn cls s (Suc i) = drop (Suc i) s" by simp
  with i assms show ?case by (simp add: scan_miss Cons_nth_drop_Suc)
qed

lemma scan_whole:
  "con s 0 = Some (a, b, length s) \<Longrightarrow> s \<noteq> [] \<Longrightarrow> scan con opn cls s 0 = opn @ substring s a b @ cls"
  by (simp add: scan_hit scan_end)

lemma substring_middle [simp]: "substring (p @ y @ r) (length p) (length p + length y) = y"
  by (simp add: substring_def)

lemma find_upt_first:
  "a \<le> b \<Longrightarrow> b < c \<Longrightarrow> Q b \<Longrightarrow> (\<And>k. a \<le> k \<Longrightarrow> k < b \<Longrightarrow> \<not> Q k) \<Longrightarrow> find Q [a..<c] = Some b"
  unfolding find_Some_iff by (rule exI [of _ "b - a"]) auto

lemma startsAt_hd: "startsAt d s i \<Longrightarrow> d \<noteq> [] \<Longrightarrow> i < length s \<and> s ! i = hd d"
  by (cases d) (auto simp: startsAt_Cons)

lemma startsAt_append [simp]: "startsAt d (p @ d @ r) (length p)"
  by (simp add: startsAt_def)

lemma lineEnd_text:
  assumes "\<forall>c \<in> set y. \<not> isLineTerminator c" "r = [] \<or> isLineTerminator (hd r)"
  shows "lineEnd (p @ y @ r) (length p) = length p + length y"
proof -
  have "takeWhile (\<lambda>c. \<not> isLineTerminator c) (y @ r) = y"
    using assms by (cases r) auto
  then show ?thesis by (simp add: lineEnd_def)
qed

lemma lineEnd_ge_text:
  assumes "\<forall>c \<in> set y. \<not> isLineTerminator c"
  shows "length p + length y \<le> lineEnd (p @ y @ r) (length p)"
proof -
  have "takeWhile (\<lambda>c. \<not> isLineTerminator c) (y @ r) = y @ takeWhile (\<lambda>c. \<not> isLineTerminator c) r"
    using assms by simp
  then show ?thesis by (simp add: lineEnd_def)
qed

lemma delimitedAt_hit:
  assumes "d \<noteq> []" "y \<noteq> []" "hd d \<notin> set (tl y)" "\<forall>c \<in> set y. \<not> isLineTerminator c"
  shows "delimitedAt d (p @ d @ y @ d @ r) (length p)
           = Some (length p + length d, length p + length d + length y,
                   length p + length d + length y + length d)"
proof -
  let ?s = "p @ d @ y @ d @ r"
  let ?a = "length p + length d"
  have s: "?s = (p @ d) @ y @ (d @ r)" by simp
  have 1: "startsAt d ?s (length p)" by simp
  have 2: "startsAt d ?s (?a + length y)"
    using startsAt_append [of d "p @ d @ y" r] by (simp add: add.assoc)
  have 3: "?a + length y \<le> lineEnd ?s ?a"
    using lineEnd_ge_text [OF assms(4), of "p @ d" "d @ r"] by simp
  have 4: "\<not> startsAt d ?s k" if "?a + 1 \<le> k" "k < ?a + length y" for k
  proof
    assume "startsAt d ?s k"
    from startsAt_hd [OF this assms(1)] have h: "?s ! k = hd d" by simp
    define j where "j = k - Suc ?a"
    have j: "k = length (p @ d) + Suc j" "Suc j < length y"
      using that by (simp_all add: j_def)
    have "?s ! k = (y @ d @ r) ! Suc j"
      unfolding s j(1) by (rule nth_append_length_plus)
    also have "\<dots> = y ! Suc j" using j(2) by (simp add: nth_append)
    also have "\<dots> = tl y ! j" using j(2) by (cases y) auto
    finally have "hd d = tl y ! j" using h by simp
    moreover have "j < length (tl y)" using j(2) by simp
    ultimately show False using assms(3) nth_mem by metis
  qed
  have "nearestClose d ?s ?a = Some (?a + length y)"
    unfolding nearestClose_def using assms(2) 2 3 4
    by (intro find_upt_first) (auto simp: Suc_leI)
  with 1 show ?thesis by (simp add: delimitedAt_def)
qed

lemma delimitedAt_last:
  "delimitedAt d (p @ d) (length p) = None"
proof -
  have "lineEnd (p @ d) (length p + length d) = length p + length d"
    by (simp add: lineEnd_def)
  then show ?thesis by (simp add: delimitedAt_def nearestClose_def)
qed

lemma plainTextD:
  assumes "plainText t"
  shows "t \<noteq> []" "\<not> isWhiteSpace (hd t)" "\<forall>c \<in> set t. \<not> isLineTerminator c"
    "of_char CHR ''*'' \<notin> set t" "of_char CHR ''`'' \<notin> set t" "of_char CHR ''<'' \<notin> set t"
  using assms by (auto simp: plainText_def list_all_iff js_Cons)

lemma boldStage_id: "of_char CHR ''*'' \<notin> set s \<Longrightarrow> boldStage s = s"
  unfolding stages_refine(3) [symmetric] by (intro replaceAll_no_match no_star_boldRe)

lemma italicStage_id: "of_char CHR ''*'' \<notin> set s \<Longrightarrow> italicStage s = s"
  unfolding stages_refine(4) [symmetric] by (intro replaceAll_no_match no_star_italicRe)

lemma codeStage_id: "of_char CHR ''`'' \<notin> set s \<Longrightarrow> codeStage s = s"
  unfolding stages_refine(5) [symmetric] by (intro replaceAll_no_match no_tick_codeRe)

lemma groupingStage_id:
  assumes "of_char CHR ''<'' \<notin> set s"
  shows "groupingStage s = s"
proof -
  have "\<not> startsAt (js ''<li>'') s j" for j
  proof
    assume "startsAt (js ''<li>'') s j"
    then have "j < length s" "s ! j = of_char CHR ''<''"
      by (simp_all add: js_Cons startsAt_Cons)
    with assms show False using nth_mem by metis
  qed
  then have "listRunAt s j = None" for j by (simp add: listRunAt_def itemAt_def)
  then show ?thesis unfolding groupingStage_def by (simp add: scan_none)
qed

lemma bulletStage_one_line:
  assumes "\<forall>c \<in> set s. \<not> isLineTerminator c" "bulletLineAt s 0 = None"
  shows "bulletStage s = s"
proof -
  have "bulletLineAt s j = None" for j
  proof (cases "j = 0")
    case True
    with assms(2) show ?thesis by simp
  next
    case False
    have "\<not> atLineStart s j"
    proof
      assume "atLineStart s j"
      with False have "j - 1 < length s" "isLineTerminator (s ! (j - 1))"
        by (auto simp: atLineStart_def)
      with assms(1) show False using nth_mem by blast
    qed
    then show ?thesis by (simp add: bulletLineAt_def)
  qed
  then show ?thesis unfolding bulletStage_def by (simp add: scan_none)
qed

lemma spaceEnd_stop: "\<not> isWhiteSpace c \<Longrightarrow> spaceEnd (p @ c # r) (length p) = length p"
  by (simp add: spaceEnd_def)

lemma bulletLineAt_start_none:
  assumes "\<not> isWhiteSpace c0" "\<not> isWhiteSpace c1"
  shows "bulletLineAt (c0 # c1 # r) 0 = None"
proof -
  have "spaceEnd (c0 # c1 # r) 0 = 0" using spaceEnd_stop [of c0 "[]"] assms(1) by simp
  then show ?thesis using assms(2) by (simp add: bulletLineAt_def)
qed

lemma bulletLineAt_hit:
  assumes "p = [] \<or> isLineTerminator (last p)" "m \<in> set (js ''*-'')"
    and "t \<noteq> []" "\<not> isWhiteSpace (hd t)" "\<forall>c \<in> set t. \<not> isLineTerminator c"
    and "r = [] \<or> isLineTerminator (hd r)"
  shows "bulletLineAt (p @ m # of_char CHR '' '' # t @ r) (length p)
           = Some (length p + 2, length p + 2 + length t, length p + 2 + length t)"
proof -
  define s where "s = p @ m # of_char CHR '' '' # t @ r"
  define n where "n = length p"
  obtain c u where t: "t = c # u" using assms(3) by (cases t) auto
  have c: "\<not> isWhiteSpace c" "\<not> isLineTerminator c" using assms(4,5) t by auto
  have k: "spaceEnd s n = n"
    unfolding s_def n_def using marker_not_space [OF assms(2)] by (rule spaceEnd_stop)
  have k2: "spaceEnd s (n + 2) = n + 2"
    using spaceEnd_stop [OF c(1), of "p @ [m, of_char CHR '' '']" "u @ r"] t
    by (simp add: s_def n_def)
  have e: "lineEnd s (n + 2) = n + 2 + length t"
    using lineEnd_text [OF assms(5,6), of "p @ [m, of_char CHR '' '']"] by (simp add: s_def n_def)
  have a: "atLineStart s n"
  proof (cases "p = []")
    case True
    then show ?thesis by (simp add: atLineStart_def n_def)
  next
    case False
    then have "s ! (length p - 1) = last p"
      by (simp add: nth_append last_conv_nth s_def)
    with assms(1) False show ?thesis by (simp add: atLineStart_def s_def n_def)
  qed
  have n0: "s ! n = m" by (simp add: s_def n_def)
  have n1: "isWhiteSpace (s ! (n + 1))" by (simp add: nth_append s_def n_def isWhiteSpace_def)
  have n2: "\<not> isLineTerminator (s ! (n + 2))" using c(2) by (simp add: nth_append s_def n_def t)
  have l: "n + 2 < length s" "n + 1 < length s" using t by (simp_all add: s_def n_def)
  have r: "rev [n + 2..<Suc (n + 2)] = [n + 2]" by simp
  have "bulletLineAt s n = Some (n + 2, n + 2 + length t, n + 2 + length t)"
    unfolding bulletLineAt_def Let_def k k2 r using a assms(2) l n0 n1 n2 e by simp
  then show ?thesis unfolding s_def n_def .
qed

lemma delimited_whole:
  assumes "d \<noteq> []" "y \<noteq> []" "hd d \<notin> set (tl y)" "\<forall>c \<in> set y. \<not> isLineTerminator c"
    and "con (d @ y @ d) 0 = delimitedAt d (d @ y @ d) 0"
  shows "scan con opn cls (d @ y @ d) 0 = opn @ y @ cls"
proof -
  define s where "s = d @ y @ d"
  have "delimitedAt d s 0 = Some (length d, length d + length y, length s)"
    using delimitedAt_hit [OF assms(1-4), of "[]" "[]"] by (simp add: s_def)
  then have "con s 0 = Some (length d, length d + length y, length s)"
    using assms(5) by (simp add: s_def)
  moreover have "s \<noteq> []" using assms(1) by (simp add: s_def)
  moreover have "substring s (length d) (length d + length y) = y"
    unfolding s_def by (rule substring_middle)
  ultimately have "scan con opn cls s 0 = opn @ y @ cls" by (simp add: scan_whole)
  then show ?thesis by (simp add: s_def)
qed

lemma star_not_in_tl: "c \<notin> set y \<Longrightarrow> c \<notin> set (tl y)"
  by (cases y) auto

lemma boldStage_span:
  assumes "plainText y"
  shows "boldStage (js ''**'' @ y @ js ''**'') = js ''<strong>'' @ y @ js ''</strong>''"
  unfolding boldStage_def using plainTextD [OF assms]
  by (intro delimited_whole) (simp_all add: boldAt_def js_Cons star_not_in_tl)

lemma codeStage_span:
  assumes "plainText y"
  shows "codeStage (js ''`'' @ y @ js ''`'') = js ''<code>'' @ y @ js ''</code>''"
  unfolding codeStage_def using plainTextD [OF assms]
  by (intro delimited_whole) (simp_all add: codeAt_def js_Cons star_not_in_tl)

lemma italicStage_span:
  assumes "plainText y"
  shows "italicStage (js ''*'' @ y @ js ''*'') = js ''<em>'' @ y @ js ''</em>''"
proof -
  obtain c u where y: "y = c # u" using plainTextD(1) [OF assms] by (cases y) auto
  have "\<not> isWhiteSpace c" using plainTextD(2) [OF assms] y by simp
  then have "italicAt (js ''*'' @ y @ js ''*'') 0 = delimitedAt (js ''*'') (js ''*'' @ y @ js ''*'') 0"
    by (simp add: italicAt_def js_Cons y)
  then show ?thesis
    unfolding italicStage_def using plainTextD [OF assms]
    by (intro delimited_whole) (simp_all add: js_Cons star_not_in_tl)
qed

lemma italicStage_on_bold:
  assumes "plainText y"
  shows "italicStage (js ''**'' @ y @ js ''**'') = js ''<em>*'' @ y @ js ''</em>*''"
proof -
  define d :: "cu list" where "d = js ''*''"
  define z where "z = d @ y"
  define s where "s = d @ z @ d @ d"
  define n where "n = length d + length z + length d"
  have d: "d \<noteq> []" "hd d = of_char CHR ''*''" "length d = 1" "d = [of_char CHR ''*'']"
    by (simp_all add: d_def js_Cons)
  have z: "z \<noteq> []" "hd d \<notin> set (tl z)" "\<forall>c \<in> set z. \<not> isLineTerminator c"
    using plainTextD [OF assms] d by (simp_all add: z_def isLineTerminator_def)
  have h: "delimitedAt d s 0 = Some (length d, length d + length z, n)"
    using delimitedAt_hit [OF d(1) z, of "[]" d] by (simp add: s_def n_def)
  have "s ! 1 = of_char CHR ''*''" by (simp add: s_def z_def d)
  then have w: "\<not> isWhiteSpace (s ! 1)" by (simp add: isWhiteSpace_def isLineTerminator_def)
  have len: "length s = Suc n" by (simp add: s_def n_def d)
  have 1: "italicAt s 0 = Some (length d, length d + length z, n)"
    using h w by (simp add: italicAt_def d_def)
  have s2: "s = (d @ z @ d) @ d" by (simp add: s_def)
  have "delimitedAt d s n = None"
    unfolding s2 using delimitedAt_last [of d "d @ z @ d"] by (simp add: n_def add.assoc)
  then have 2: "italicAt s n = None" using len by (simp add: italicAt_def d_def)
  have 3: "substring s (length d) (length d + length z) = z"
    unfolding s_def by (rule substring_middle)
  have 4: "s ! n = of_char CHR ''*''"
    unfolding s2 n_def using nth_append_length [of "d @ z @ d" "of_char CHR ''*''" "[]"] d(4) by simp
  have "scan italicAt (js ''<em>'') (js ''</em>'') s 0
          = js ''<em>'' @ z @ js ''</em>'' @ scan italicAt (js ''<em>'') (js ''</em>'') s n"
    using scan_hit [of italicAt s 0 "length d" "length d + length z" n "js ''<em>''" "js ''</em>''"] 1 len 3
    by (simp add: n_def d)
  also have "scan italicAt (js ''<em>'') (js ''</em>'') s n = [of_char CHR ''*'']"
    using scan_miss [of n s italicAt "js ''<em>''" "js ''</em>''"] 2 len 4 by (simp add: scan_end)
  finally show ?thesis
    unfolding italicStage_def by (simp add: s_def z_def d js_Cons)
qed

lemma itemAt_hit:
  assumes "of_char CHR ''<'' \<notin> set t"
  shows "itemAt (p @ js ''<li>'' @ t @ js ''</li>'' @ r) (length p)
           = Some (length p + length t + 9 + length (takeWhile isWhiteSpace r))"
proof -
  define s where "s = p @ js ''<li>'' @ t @ js ''</li>'' @ r"
  define n where "n = length p"
  have l4: "length (js ''<li>'') = 4" and l5: "length (js ''</li>'') = 5" by (simp_all add: js_def)
  have 1: "startsAt (js ''<li>'') s n" unfolding s_def n_def by simp
  have s2: "s = (p @ js ''<li>'' @ t) @ js ''</li>'' @ r" by (simp add: s_def)
  have 2: "startsAt (js ''</li>'') s (n + 4 + length t)"
    unfolding s2 using startsAt_append [of "js ''</li>''" "p @ js ''<li>'' @ t" r]
    by (simp add: n_def l4 add.assoc)
  have 3: "\<not> startsAt (js ''</li>'') s k" if "n + 4 \<le> k" "k < n + 4 + length t" for k
  proof
    assume "startsAt (js ''</li>'') s k"
    then have h: "s ! k = of_char CHR ''<''" by (simp add: js_Cons startsAt_Cons)
    define j where "j = k - (n + 4)"
    have j: "k = length (p @ js ''<li>'') + j" "j < length t"
      using that by (simp_all add: j_def n_def l4)
    have s3: "s = (p @ js ''<li>'') @ t @ js ''</li>'' @ r" by (simp add: s_def)
    have "s ! k = (t @ js ''</li>'' @ r) ! j"
      unfolding s3 j(1) by (rule nth_append_length_plus)
    also have "\<dots> = t ! j" using j(2) by (simp add: nth_append)
    finally have "of_char CHR ''<'' = t ! j" using h by simp
    with j(2) assms show False using nth_mem by metis
  qed
  have len: "length s = n + length t + 9 + length r" by (simp add: s_def n_def l4 l5)
  have f: "find (startsAt (js ''</li>'') s) [n + 4..<Suc (length s)] = Some (n + 4 + length t)"
    using 2 3 len by (intro find_upt_first) auto
  have s4: "s = (p @ js ''<li>'' @ t @ js ''</li>'') @ r" by (simp add: s_def)
  have "drop (n + 4 + length t + 5) s = r"
    unfolding s4 by (simp add: n_def l4 l5)
  then have e: "spaceEnd s (n + 4 + length t + 5) = n + length t + 9 + length (takeWhile isWhiteSpace r)"
    by (simp add: spaceEnd_def)
  have "itemAt s n = Some (n + length t + 9 + length (takeWhile isWhiteSpace r))"
    unfolding itemAt_def f using 1 e by simp
  then show ?thesis unfolding s_def n_def .
qed

subsection \<open>Bullet lines with plain texts\<close>

lemma bulletLines_simps:
  "bulletLines m [t] = m # of_char CHR '' '' # t"
  "bulletLines m (t # u # ts) = m # of_char CHR '' '' # t @ of_char CHR ''\<newline>'' # bulletLines m (u # ts)"
  by (simp_all add: bulletLines_def)

lemma itemLines_simps:
  "itemLines [t] = js ''<li>'' @ t @ js ''</li>''"
  "itemLines (t # u # ts) = js ''<li>'' @ t @ js ''</li>'' @ of_char CHR ''\<newline>'' # itemLines (u # ts)"
  by (simp_all add: itemLines_def)

lemma itemLines_hd: "\<exists>r. itemLines (u # ts) = of_char CHR ''<'' # r"
  by (cases ts) (simp_all add: itemLines_def js_Cons)

lemma set_itemLines:
  "c \<in> set (itemLines ts) \<Longrightarrow> c \<in> set (js ''<li>/\<newline>'') \<or> (\<exists>t \<in> set ts. c \<in> set t)"
  by (induction ts rule: induct_list012) (auto simp: itemLines_def js_Cons)

lemma bulletStage_lines:
  assumes "m \<in> set (js ''*-'')"
  shows "ts \<noteq> [] \<Longrightarrow> list_all plainText ts \<Longrightarrow> p = [] \<or> isLineTerminator (last p) \<Longrightarrow>
     scan bulletLineAt (js ''<li>'') (js ''</li>'') (p @ bulletLines m ts) (length p) = itemLines ts"
proof (induction ts arbitrary: p rule: induct_list012)
  case 1
  then show ?case by simp
next
  case (2 t)
  then have t: "plainText t" by simp
  define s where "s = p @ m # of_char CHR '' '' # t @ []"
  have h: "bulletLineAt s (length p) = Some (length p + 2, length p + 2 + length t, length p + 2 + length t)"
    unfolding s_def using plainTextD [OF t] 2(3) assms by (intro bulletLineAt_hit) simp_all
  have len: "length s = length p + 2 + length t" by (simp add: s_def)
  have sub: "substring s (length p + 2) (length p + 2 + length t) = t"
    using substring_middle [of "p @ [m, of_char CHR '' '']" t "[]"] by (simp add: s_def)
  have "scan bulletLineAt (js ''<li>'') (js ''</li>'') s (length p) = js ''<li>'' @ t @ js ''</li>''"
    using scan_hit [of bulletLineAt s "length p" "length p + 2" "length p + 2 + length t"
        "length p + 2 + length t" "js ''<li>''" "js ''</li>''"] h len sub
    by (simp add: scan_end)
  then show ?case by (simp add: s_def bulletLines_simps itemLines_simps)
next
  case (3 t u ts)
  then have t: "plainText t" and ts: "list_all plainText (u # ts)" by simp_all
  define nl :: cu where "nl = of_char CHR ''\<newline>''"
  define rest where "rest = bulletLines m (u # ts)"
  define s where "s = p @ m # of_char CHR '' '' # t @ nl # rest"
  define e where "e = length p + 2 + length t"
  have nl: "isLineTerminator nl" by (simp add: nl_def isLineTerminator_def)
  have h: "bulletLineAt s (length p) = Some (length p + 2, e, e)"
    unfolding s_def e_def using plainTextD [OF t] 3(5) assms nl by (intro bulletLineAt_hit) simp_all
  have len: "length s = Suc e + length rest" by (simp add: s_def e_def)
  have sub: "substring s (length p + 2) e = t"
    using substring_middle [of "p @ [m, of_char CHR '' '']" t "nl # rest"] by (simp add: s_def e_def)
  define q where "q = p @ m # of_char CHR '' '' # t"
  have s2: "s = q @ nl # rest" by (simp add: s_def q_def)
  have le: "length q = e" "q \<noteq> []" by (simp_all add: e_def q_def)
  have se: "s ! e = nl" unfolding s2 le(1) [symmetric] by (rule nth_append_length)
  have "s ! (e - 1) = q ! (length q - 1)"
    unfolding s2 le(1) [symmetric] using le(2) by (simp add: nth_append)
  also have "\<dots> = last q" using le(2) by (simp add: last_conv_nth)
  also have "\<dots> = last t" using plainTextD(1) [OF t] by (simp add: q_def)
  finally have "\<not> isLineTerminator (s ! (e - 1))"
    using plainTextD(1,3) [OF t] by simp
  then have "\<not> atLineStart s e" by (simp add: atLineStart_def e_def)
  then have miss: "bulletLineAt s e = None" by (simp add: bulletLineAt_def)
  have s3: "s = (p @ m # of_char CHR '' '' # t @ [nl]) @ bulletLines m (u # ts)"
    by (simp add: s_def rest_def)
  have l3: "length (p @ m # of_char CHR '' '' # t @ [nl]) = Suc e" by (simp add: e_def)
  have IH: "scan bulletLineAt (js ''<li>'') (js ''</li>'') s (Suc e) = itemLines (u # ts)"
    unfolding s3 l3 [symmetric] using ts nl by (intro 3(2)) simp_all
  have "scan bulletLineAt (js ''<li>'') (js ''</li>'') s (length p)
          = js ''<li>'' @ t @ js ''</li>'' @ scan bulletLineAt (js ''<li>'') (js ''</li>'') s e"
    using scan_hit [of bulletLineAt s "length p" "length p + 2" e e "js ''<li>''" "js ''</li>''"]
      h len sub by (simp add: e_def)
  also have "scan bulletLineAt (js ''<li>'') (js ''</li>'') s e = nl # itemLines (u # ts)"
    using scan_miss [of e s bulletLineAt "js ''<li>''" "js ''</li>''"] miss len se IH by simp
  finally show ?case by (simp add: s_def rest_def nl_def bulletLines_simps itemLines_simps)
qed

lemma itemAt_end: "itemAt s (length s) = None"
proof -
  have "\<not> startsAt (js ''<li>'') s (length s)"
    by (simp add: js_Cons startsAt_Cons)
  then show ?thesis by (simp add: itemAt_def)
qed

lemma itemsEnd_end: "itemsEnd s (length s) = length s"
  by (subst itemsEnd.simps) (simp add: itemAt_end)

lemma itemsEnd_items:
  "ts \<noteq> [] \<Longrightarrow> \<forall>t \<in> set ts. of_char CHR ''<'' \<notin> set t \<Longrightarrow>
     itemsEnd (p @ itemLines ts) (length p) = length (p @ itemLines ts)"
proof (induction ts arbitrary: p rule: induct_list012)
  case 1
  then show ?case by simp
next
  case (2 t)
  define s where "s = p @ js ''<li>'' @ t @ js ''</li>'' @ []"
  have len: "length s = length p + length t + 9" by (simp add: s_def js_def)
  have "itemAt s (length p) = Some (length s)"
    unfolding s_def using itemAt_hit [of t p "[]"] 2 by (simp add: js_def)
  moreover have "length p < length s" using len by simp
  ultimately have "itemsEnd s (length p) = length s"
    by (subst itemsEnd.simps) (simp add: itemsEnd_end)
  then show ?case by (simp add: s_def itemLines_simps)
next
  case (3 t u ts)
  define nl :: cu where "nl = of_char CHR ''\<newline>''"
  obtain r where r: "itemLines (u # ts) = of_char CHR ''<'' # r" using itemLines_hd by blast
  define s where "s = p @ js ''<li>'' @ t @ js ''</li>'' @ nl # itemLines (u # ts)"
  define e where "e = length p + length t + 10"
  have w: "takeWhile isWhiteSpace (nl # itemLines (u # ts)) = [nl]"
    unfolding r by (simp add: nl_def isWhiteSpace_def isLineTerminator_def)
  have h: "itemAt s (length p) = Some e"
    unfolding s_def e_def using itemAt_hit [of t p "nl # itemLines (u # ts)"] 3(4) w by simp
  have s2: "s = (p @ js ''<li>'' @ t @ js ''</li>'' @ [nl]) @ itemLines (u # ts)" by (simp add: s_def)
  have l2: "length (p @ js ''<li>'' @ t @ js ''</li>'' @ [nl]) = e" by (simp add: e_def js_def)
  have IH: "itemsEnd s e = length s"
    unfolding s2 l2 [symmetric] using 3(4) by (intro 3(2)) simp_all
  have "e \<le> length s" unfolding s2 l2 [symmetric] by simp
  moreover have "length p < e" by (simp add: e_def)
  ultimately have "itemsEnd s (length p) = length s"
    using h IH by (subst itemsEnd.simps) simp
  then show ?case by (simp add: s_def nl_def itemLines_simps)
qed

lemma listRunAt_of_itemsEnd:
  assumes "itemsEnd s i = n" "i < n"
  shows "listRunAt s i = Some (i, n, n)"
proof (cases "itemAt s i")
  case None
  then have "itemsEnd s i = i" by (subst itemsEnd.simps) simp
  with assms show ?thesis by simp
next
  case (Some e)
  show ?thesis
  proof (cases "i < e \<and> e \<le> length s")
    case True
    with Some have "itemsEnd s i = itemsEnd s e" by (subst itemsEnd.simps) simp
    with assms Some show ?thesis by (simp add: listRunAt_def)
  next
    case False
    with Some have "itemsEnd s i = i" by (subst itemsEnd.simps) auto
    with assms show ?thesis by simp
  qed
qed

lemma groupingStage_items:
  assumes "ts \<noteq> []" "\<forall>t \<in> set ts. of_char CHR ''<'' \<notin> set t"
  shows "groupingStage (itemLines ts) = js ''<ul>'' @ itemLines ts @ js ''</ul>''"
proof -
  define s where "s = itemLines ts"
  obtain r where "s = of_char CHR ''<'' # r"
    using assms(1) itemLines_hd unfolding s_def by (cases ts) auto
  then have ne: "s \<noteq> []" by simp
  have "itemsEnd s 0 = length s"
    using itemsEnd_items [OF assms, of "[]"] by (simp add: s_def)
  then have "listRunAt s 0 = Some (0, length s, length s)"
    using ne by (intro listRunAt_of_itemsEnd) simp_all
  then have "scan listRunAt (js ''<ul>'') (js ''</ul>'') s 0 = js ''<ul>'' @ substring s 0 (length s) @ js ''</ul>''"
    using ne by (rule scan_whole)
  then show ?thesis by (simp add: groupingStage_def s_def substring_def)
qed

lemma render_bulletLines:
  assumes "m \<in> set (js ''*-'')" "ts \<noteq> []" "list_all plainText ts"
  shows "renderMarkdown (bulletLines m ts) = js ''<ul>'' @ itemLines ts @ js ''</ul>''"
proof -
  have p: "\<forall>t \<in> set ts. of_char CHR ''<'' \<notin> set t \<and> of_char CHR ''*'' \<notin> set t \<and> of_char CHR ''`'' \<notin> set t"
    using assms(3) plainTextD by (auto simp: list_all_iff)
  have 1: "bulletStage (bulletLines m ts) = itemLines ts"
    unfolding bulletStage_def using bulletStage_lines [OF assms, of "[]"] by simp
  have 2: "groupingStage (itemLines ts) = js ''<ul>'' @ itemLines ts @ js ''</ul>''"
    using assms(2) p by (intro groupingStage_items) auto
  have "c \<in> set (js ''<uli>/\<newline>'') \<or> (\<exists>t \<in> set ts. c \<in> set t)"
    if "c \<in> set (js ''<ul>'' @ itemLines ts @ js ''</ul>'')" for c
    using that set_itemLines [of c ts] by (auto simp: js_Cons)
  then have 3: "of_char CHR ''*'' \<notin> set (js ''<ul>'' @ itemLines ts @ js ''</ul>'')"
    and 4: "of_char CHR ''`'' \<notin> set (js ''<ul>'' @ itemLines ts @ js ''</ul>'')"
    using p by (fastforce simp: js_Cons)+
  show ?thesis
    unfolding renderMarkdown_stages 1 2 by (simp only: boldStage_id [OF 3] italicStage_id [OF 3] codeStage_id [OF 4])
qed

subsection \<open>Single spans of plain text\<close>

lemma one_line_span:
  assumes "plainText y" "\<not> isLineTerminator c0" "\<not> isWhiteSpace c0" "\<forall>c \<in> set r. \<not> isLineTerminator c"
  shows "bulletStage (c0 # y @ r) = c0 # y @ r"
proof -
  obtain c u where y: "y = c # u" using plainTextD(1) [OF assms(1)] by (cases y) auto
  have "\<not> isWhiteSpace c" using plainTextD(2) [OF assms(1)] y by simp
  then have "bulletLineAt (c0 # y @ r) 0 = None"
    unfolding y using bulletLineAt_start_none [OF assms(3), of c "u @ r"] by simp
  moreover have "\<forall>c \<in> set (c0 # y @ r). \<not> isLineTerminator c"
    using plainTextD(3) [OF assms(1)] assms(2,4) by auto
  ultimately show ?thesis by (rule bulletStage_one_line [rotated])
qed

lemma render_bold_span:
  assumes "plainText y"
  shows "renderMarkdown (js ''**'' @ y @ js ''**'') = js ''<strong>'' @ y @ js ''</strong>''"
proof -
  have "bulletLineAt (js ''**'' @ y @ js ''**'') 0 = None"
    using bulletLineAt_start_none [of "of_char CHR ''*''" "of_char CHR ''*''" "y @ js ''**''"]
    by (simp add: js_Cons isWhiteSpace_def isLineTerminator_def)
  moreover have "\<forall>c \<in> set (js ''**'' @ y @ js ''**''). \<not> isLineTerminator c"
    using plainTextD(3) [OF assms] by (auto simp: js_Cons isLineTerminator_def)
  ultimately have 1: "bulletStage (js ''**'' @ y @ js ''**'') = js ''**'' @ y @ js ''**''"
    by (rule bulletStage_one_line [rotated])
  have 2: "groupingStage (js ''**'' @ y @ js ''**'') = js ''**'' @ y @ js ''**''"
    using plainTextD(6) [OF assms] by (intro groupingStage_id) (simp add: js_Cons)
  have 3: "of_char CHR ''*'' \<notin> set (js ''<strong>'' @ y @ js ''</strong>'')"
    using plainTextD(4) [OF assms] by (simp add: js_Cons)
  have 4: "of_char CHR ''`'' \<notin> set (js ''<strong>'' @ y @ js ''</strong>'')"
    using plainTextD(5) [OF assms] by (simp add: js_Cons)
  show ?thesis
    unfolding renderMarkdown_stages 1 2 boldStage_span [OF assms]
    by (simp only: italicStage_id [OF 3] codeStage_id [OF 4])
qed

lemma render_code_span:
  assumes "plainText y"
  shows "renderMarkdown (js ''`'' @ y @ js ''`'') = js ''<code>'' @ y @ js ''</code>''"
proof -
  have 1: "bulletStage (js ''`'' @ y @ js ''`'') = js ''`'' @ y @ js ''`''"
    using one_line_span [OF assms, of "of_char CHR ''`''" "js ''`''"]
    by (simp add: js_Cons isWhiteSpace_def isLineTerminator_def)
  have 2: "groupingStage (js ''`'' @ y @ js ''`'') = js ''`'' @ y @ js ''`''"
    using plainTextD(6) [OF assms] by (intro groupingStage_id) (simp add: js_Cons)
  have 3: "of_char CHR ''*'' \<notin> set (js ''`'' @ y @ js ''`'')"
    using plainTextD(4) [OF assms] by (simp add: js_Cons)
  show ?thesis
    unfolding renderMarkdown_stages 1 2
    by (simp only: boldStage_id [OF 3] italicStage_id [OF 3] codeStage_span [OF assms])
qed

lemma boldStage_single_stars:
  assumes "of_char CHR ''*'' \<notin> set y" "y \<noteq> []"
  shows "boldStage (js ''*'' @ y @ js ''*'') = js ''*'' @ y @ js ''*''"
proof -
  define s where "s = js ''*'' @ y @ js ''*''"
  have len: "length s = length y + 2" by (simp add: s_def js_def)
  have "\<not> startsAt (js ''**'') s j" for j
  proof
    assume "startsAt (js ''**'') s j"
    then have h: "Suc j < length s" "s ! j = of_char CHR ''*''" "s ! Suc j = of_char CHR ''*''"
      by (simp_all add: js_Cons startsAt_Cons)
    show False
    proof (cases j)
      case 0
      with h(3) assms(2) have "y ! 0 = of_char CHR ''*''" by (simp add: s_def js_Cons nth_append)
      with assms show False using nth_mem [of 0 y] by auto
    next
      case (Suc k)
      with h(1) len have k: "k < length y" by simp
      with h(2) Suc have "y ! k = of_char CHR ''*''" by (simp add: s_def js_Cons nth_append)
      with k assms(1) show False using nth_mem by metis
    qed
  qed
  then have "boldAt s j = None" for j by (simp add: boldAt_def delimitedAt_def)
  then show ?thesis unfolding boldStage_def s_def [symmetric] by (simp add: scan_none)
qed

lemma render_italic_span:
  assumes "plainText y"
  shows "renderMarkdown (js ''*'' @ y @ js ''*'') = js ''<em>'' @ y @ js ''</em>''"
proof -
  have 1: "bulletStage (js ''*'' @ y @ js ''*'') = js ''*'' @ y @ js ''*''"
    using one_line_span [OF assms, of "of_char CHR ''*''" "js ''*''"]
    by (simp add: js_Cons isWhiteSpace_def isLineTerminator_def)
  have 2: "groupingStage (js ''*'' @ y @ js ''*'') = js ''*'' @ y @ js ''*''"
    using plainTextD(6) [OF assms] by (intro groupingStage_id) (simp add: js_Cons)
  have 3: "boldStage (js ''*'' @ y @ js ''*'') = js ''*'' @ y @ js ''*''"
    using plainTextD(1,4) [OF assms] by (intro boldStage_single_stars)
  have 4: "of_char CHR ''`'' \<notin> set (js ''<em>'' @ y @ js ''</em>'')"
    using plainTextD(5) [OF assms] by (simp add: js_Cons)
  show ?thesis
    unfolding renderMarkdown_stages 1 2 3 italicStage_span [OF assms]
    by (simp only: codeStage_id [OF 4])
qed

lemma bullets_after_grouping:
  assumes "plainText y" "m \<in> set (js ''*-'')"
  shows "bulletStage (groupingStage (bulletLines m [y])) = js ''<li>'' @ y @ js ''</li>''"
proof -
  have "of_char CHR ''<'' \<notin> set (bulletLines m [y])"
    using plainTextD(6) [OF assms(1)] assms(2) by (auto simp: bulletLines_simps js_Cons)
  then have "groupingStage (bulletLines m [y]) = bulletLines m [y]" by (rule groupingStage_id)
  moreover have "bulletStage (bulletLines m [y]) = itemLines [y]"
    unfolding bulletStage_def using bulletStage_lines [OF assms(2), of "[y]" "[]"] assms(1) by simp
  ultimately show ?thesis by (simp add: itemLines_simps)
qed

lemma bullet_marker_not_italic:
  "bulletLineAt s i = Some (a, b, e) \<Longrightarrow> italicAt s (spaceEnd s i) = None"
  by (auto simp: bulletLineAt_def italicAt_def Let_def split: if_splits)

section \<open>The claims\<close>

text \<open>
  C1. The renderer is total: for every input string it returns an output string. The
  three loops of the model (the matcher, the search for the next match, the collection
  of all matches) are functions with a termination proof, so \<open>renderMarkdown\<close> is defined
  on every string and there is no error value it could return; a replacement collects at
  most one match more than the input has code units. The empty string gives the empty
  string, and adjacent bold markers and unbalanced delimiters give a result as well.
\<close>

theorem renderMarkdown_total:
  "(\<exists>out. renderMarkdown s = out)
   \<and> length (collect r s 0) \<le> length s + 1
   \<and> renderMarkdown [] = []
   \<and> renderMarkdown (js ''****'') = js ''<em>*</em>*''
   \<and> renderMarkdown (js ''a **b `c'') = js ''a **b `c''"
proof (intro conjI)
  show "length (collect r s 0) \<le> length s + 1"
    using collect_length [of r s 0] by simp
  show "renderMarkdown [] = []" by code_simp
  show "renderMarkdown (js ''****'') = js ''<em>*</em>*''" by code_simp
  show "renderMarkdown (js ''a **b `c'') = js ''a **b `c''" by code_simp
qed simp

text \<open>
  C2, as amended. A string with no \<open>*\<close>, no backtick, no bullet marker (a \<open>-\<close> or \<open>*\<close>
  that is the first character of its line after whitespace and is followed by a
  whitespace character, a line break included) and no \<open><li>\<close> followed later by
  \<open></li>\<close> is returned unchanged.
\<close>

theorem plain_text_unchanged:
  assumes "of_char CHR ''*'' \<notin> set s" and "of_char CHR ''`'' \<notin> set s"
    and "\<not> hasBulletLine s" and "\<not> hasListItem s"
  shows "renderMarkdown s = s"
  using assms by (rule renderMarkdown_plain)

theorem plain_text_unchanged_witness:
  "(of_char CHR ''*'' \<notin> set (js ''Plain - text with <b>tags</b>.'')
    \<and> of_char CHR ''`'' \<notin> set (js ''Plain - text with <b>tags</b>.'')
    \<and> \<not> hasBulletLine (js ''Plain - text with <b>tags</b>.'')
    \<and> \<not> hasListItem (js ''Plain - text with <b>tags</b>.''))
   \<and> renderMarkdown (js ''Plain - text with <b>tags</b>.'') = js ''Plain - text with <b>tags</b>.''"
proof -
  have h1: "of_char CHR ''*'' \<notin> set (js ''Plain - text with <b>tags</b>.'')" by code_simp
  have h2: "of_char CHR ''`'' \<notin> set (js ''Plain - text with <b>tags</b>.'')" by code_simp
  have h3: "\<not> hasBulletLine (js ''Plain - text with <b>tags</b>.'')" by code_simp
  have h4: "\<not> hasListItem (js ''Plain - text with <b>tags</b>.'')" by code_simp
  from plain_text_unchanged [OF h1 h2 h3 h4] h1 h2 h3 h4 show ?thesis by blast
qed

text \<open>
  The claim as stated names only the markdown markers. The string \<open><li>x</li>\<close> has none
  of them, and the grouping stage still wraps it.
\<close>

theorem plain_text_counterexample:
  "of_char CHR ''*'' \<notin> set (js ''<li>x</li>'')
   \<and> of_char CHR ''`'' \<notin> set (js ''<li>x</li>'')
   \<and> \<not> hasBulletLine (js ''<li>x</li>'')
   \<and> renderMarkdown (js ''<li>x</li>'') = js ''<ul><li>x</li></ul>''
   \<and> renderMarkdown (js ''<li>x</li>'') \<noteq> js ''<li>x</li>''"
  by code_simp

text \<open>
  C3. The renderer is the composition of the five stages of the specification in the order
  bullet lines, list grouping, bold, italic, inline code; the stages are the scanners
  \<open>bulletStage\<close> to \<open>codeStage\<close>, which are written without the patterns. The order
  shows on every plain text \<open>t\<close>. The bold span \<open>**t**\<close> gives \<open><strong>t</strong>\<close>
  with no emphasis in it, because its stars are gone when the italic stage runs; the
  italic stage applied to \<open>**t**\<close> itself takes one star of each delimiter. The bullet
  line \<open>* t\<close> gives one list item in one container and no emphasis, its star is gone
  after the first stage; grouping before the bullet stage would leave the item without a
  container. \<open>*t*\<close> and the text \<open>t\<close> between two backticks give an emphasis and a
  code span. On every string, the marker of a bullet line is followed by whitespace, and
  there the italic stage opens no emphasis. One line with all five constructs is rendered
  as the order says.
\<close>

theorem stages_in_order:
  "renderMarkdown s = codeStage (italicStage (boldStage (groupingStage (bulletStage s))))
   \<and> (plainText t \<longrightarrow>
         renderMarkdown (js ''**'' @ t @ js ''**'') = js ''<strong>'' @ t @ js ''</strong>''
       \<and> italicStage (js ''**'' @ t @ js ''**'') = js ''<em>*'' @ t @ js ''</em>*''
       \<and> renderMarkdown (js ''* '' @ t) = js ''<ul><li>'' @ t @ js ''</li></ul>''
       \<and> bulletStage (groupingStage (js ''* '' @ t)) = js ''<li>'' @ t @ js ''</li>''
       \<and> renderMarkdown (js ''*'' @ t @ js ''*'') = js ''<em>'' @ t @ js ''</em>''
       \<and> renderMarkdown (js ''`'' @ t @ js ''`'') = js ''<code>'' @ t @ js ''</code>'')
   \<and> (bulletLineAt s i = Some (a, b, e) \<longrightarrow> italicAt s (spaceEnd s i) = None)
   \<and> boldStage (italicStage (js ''**bold**'')) = js ''<em>*bold</em>*''
   \<and> renderMarkdown (js ''- a `b` **c** *d*'')
       = js ''<ul><li>a <code>b</code> <strong>c</strong> <em>d</em></li></ul>''"
proof -
  have 1: "renderMarkdown s = codeStage (italicStage (boldStage (groupingStage (bulletStage s))))"
    by (rule renderMarkdown_stages)
  have 2: "plainText t \<longrightarrow>
         renderMarkdown (js ''**'' @ t @ js ''**'') = js ''<strong>'' @ t @ js ''</strong>''
       \<and> italicStage (js ''**'' @ t @ js ''**'') = js ''<em>*'' @ t @ js ''</em>*''
       \<and> renderMarkdown (js ''* '' @ t) = js ''<ul><li>'' @ t @ js ''</li></ul>''
       \<and> bulletStage (groupingStage (js ''* '' @ t)) = js ''<li>'' @ t @ js ''</li>''
       \<and> renderMarkdown (js ''*'' @ t @ js ''*'') = js ''<em>'' @ t @ js ''</em>''
       \<and> renderMarkdown (js ''`'' @ t @ js ''`'') = js ''<code>'' @ t @ js ''</code>''"
  proof (intro impI conjI)
    assume t: "plainText t"
    show "renderMarkdown (js ''**'' @ t @ js ''**'') = js ''<strong>'' @ t @ js ''</strong>''"
      using t by (rule render_bold_span)
    show "italicStage (js ''**'' @ t @ js ''**'') = js ''<em>*'' @ t @ js ''</em>*''"
      using t by (rule italicStage_on_bold)
    have m: "of_char CHR ''*'' \<in> set (js ''*-'')" by (simp add: js_Cons)
    have l: "js ''* '' @ t = bulletLines (of_char CHR ''*'') [t]"
      by (simp add: bulletLines_simps js_Cons)
    show "renderMarkdown (js ''* '' @ t) = js ''<ul><li>'' @ t @ js ''</li></ul>''"
      unfolding l using render_bulletLines [OF m, of "[t]"] t
      by (simp add: itemLines_simps js_def)
    show "bulletStage (groupingStage (js ''* '' @ t)) = js ''<li>'' @ t @ js ''</li>''"
      unfolding l using t m by (rule bullets_after_grouping)
    show "renderMarkdown (js ''*'' @ t @ js ''*'') = js ''<em>'' @ t @ js ''</em>''"
      using t by (rule render_italic_span)
    show "renderMarkdown (js ''`'' @ t @ js ''`'') = js ''<code>'' @ t @ js ''</code>''"
      using t by (rule render_code_span)
  qed
  have 3: "bulletLineAt s i = Some (a, b, e) \<longrightarrow> italicAt s (spaceEnd s i) = None"
    using bullet_marker_not_italic by blast
  have 4: "boldStage (italicStage (js ''**bold**'')) = js ''<em>*bold</em>*''" by code_simp
  have 5: "renderMarkdown (js ''- a `b` **c** *d*'')
       = js ''<ul><li>a <code>b</code> <strong>c</strong> <em>d</em></li></ul>''" by code_simp
  show ?thesis by (intro conjI 1 2 3 4 5)
qed

theorem stages_in_order_witness:
  "plainText (js ''bold'')
   \<and> renderMarkdown (js ''**bold**'') = js ''<strong>bold</strong>''
   \<and> italicStage (js ''**bold**'') = js ''<em>*bold</em>*''
   \<and> renderMarkdown (js ''* bold'') = js ''<ul><li>bold</li></ul>''
   \<and> bulletStage (groupingStage (js ''* bold'')) = js ''<li>bold</li>''
   \<and> renderMarkdown (js ''*bold*'') = js ''<em>bold</em>''
   \<and> renderMarkdown (js ''`bold`'') = js ''<code>bold</code>''
   \<and> bulletLineAt (js ''* bold'') 0 = Some (2, 6, 6)
   \<and> italicAt (js ''* bold'') (spaceEnd (js ''* bold'') 0) = None"
proof -
  have p: "plainText (js ''bold'')" by code_simp
  have q: "bulletLineAt (js ''* bold'') 0 = Some (2, 6, 6)" by code_simp
  have r: "js ''**'' @ js ''bold'' @ js ''**'' = js ''**bold**''" "js ''* '' @ js ''bold'' = js ''* bold''"
    "js ''*'' @ js ''bold'' @ js ''*'' = js ''*bold*''" "js ''`'' @ js ''bold'' @ js ''`'' = js ''`bold`''"
    "js ''<strong>'' @ js ''bold'' @ js ''</strong>'' = js ''<strong>bold</strong>''"
    "js ''<em>*'' @ js ''bold'' @ js ''</em>*'' = js ''<em>*bold</em>*''"
    "js ''<ul><li>'' @ js ''bold'' @ js ''</li></ul>'' = js ''<ul><li>bold</li></ul>''"
    "js ''<li>'' @ js ''bold'' @ js ''</li>'' = js ''<li>bold</li>''"
    "js ''<em>'' @ js ''bold'' @ js ''</em>'' = js ''<em>bold</em>''"
    "js ''<code>'' @ js ''bold'' @ js ''</code>'' = js ''<code>bold</code>''"
    by (simp_all add: js_def)
  from stages_in_order [of "js ''* bold''" "js ''bold''" 0 2 6 6] p q
  show ?thesis unfolding r by blast
qed




text \<open>
  C5. For the input \<open>**bold** and *italic*\<close> the output has exactly one strong-emphasis
  span, around \<open>bold\<close>, and exactly one emphasis span, around \<open>italic\<close>, one closed before
  the other opens. Bold matching stops at the nearest closing pair: two bold runs on one
  line stay two spans.
\<close>

theorem bold_and_italic_separate:
  "renderMarkdown (js ''**bold** and *italic*'') = js ''<strong>bold</strong> and <em>italic</em>''
   \<and> occurrences (js ''<strong>'') (renderMarkdown (js ''**bold** and *italic*'')) = 1
   \<and> occurrences (js ''<em>'') (renderMarkdown (js ''**bold** and *italic*'')) = 1
   \<and> renderMarkdown (js ''**a** b **c**'') = js ''<strong>a</strong> b <strong>c</strong>''"
  by code_simp

text \<open>
  C6. For the input \<open>*unterminated\<close> the renderer returns, and the output still contains
  the character \<open>*\<close>: the text comes back as it was.
\<close>

theorem unterminated_star_literal:
  "renderMarkdown (js ''*unterminated'') = js ''*unterminated''
   \<and> of_char CHR ''*'' \<in> set (renderMarkdown (js ''*unterminated''))"
  by code_simp

text \<open>
  C7, as amended. For every repo the modal shows the rendered summary exactly when
  \<open>readme_summary\<close> is present and not empty; when the summary is absent or is the empty
  string it shows the same fixed notice and the renderer is not used.
\<close>

theorem modal_summary_or_notice:
  "body (RepoModal env (Some r)) =
     (case readme_summary r of
        None \<Rightarrow> Notice noReadme
      | Some t \<Rightarrow>
          if t = [] then Notice noReadme
          else Article (renderMarkdown t)
                 (js ''Summary generated using ''
                    @ (case env of None \<Rightarrow> js ''google/gemma-3-27b-it:free'' | Some n \<Rightarrow> n)))"
  by (simp add: RepoModal_def split: option.splits)

text \<open>
  The claim as stated says that an absent summary is handled distinctly from the empty
  string. The modal is the same for both.
\<close>

theorem absent_and_empty_summary_same:
  "RepoModal None (Some (plainRepo\<lparr>readme_summary := None\<rparr>))
     = RepoModal None (Some (plainRepo\<lparr>readme_summary := Some []\<rparr>))
   \<and> body (RepoModal None (Some (plainRepo\<lparr>readme_summary := Some []\<rparr>))) = Notice noReadme"
  by (simp add: RepoModal_def)

text \<open>
  C9. The output is reached from the input by five wrappings, one for each stage with
  its pair of tags. A wrapping copies every character at its place, except that it puts
  a pair of tags around the text of a construct and drops the markers and the whitespace
  of the construct around that text; the grouping stage drops nothing. An angle bracket
  is none of the characters that may be dropped, so every \<open><\<close> and \<open>>\<close> of the
  input is copied to its place in the output, never encoded and never removed, and the
  output has no other characters than the copied ones and the inserted tags. In
  particular the angle brackets of the input, from left to right, are a subsequence of the
  output. The modal inserts the returned string as markup.
\<close>

theorem angle_brackets_kept:
  "(\<exists>w1 w2 w3 w4.
        wrapping strippable (js ''<li>'') (js ''</li>'') s w1
      \<and> wrapping (\<lambda>c. False) (js ''<ul>'') (js ''</ul>'') w1 w2
      \<and> wrapping strippable (js ''<strong>'') (js ''</strong>'') w2 w3
      \<and> wrapping strippable (js ''<em>'') (js ''</em>'') w3 w4
      \<and> wrapping strippable (js ''<code>'') (js ''</code>'') w4 (renderMarkdown s))
   \<and> (\<forall>c. angleBracket c \<longrightarrow> \<not> strippable c)
   \<and> set (renderMarkdown s) \<subseteq> set s \<union> set (js ''</li></ul></strong></em></code>'')
   \<and> subseq (filter angleBracket s) (renderMarkdown s)
   \<and> (\<exists>tip. body (RepoModal env (Some (r\<lparr>readme_summary := Some (c # t)\<rparr>)))
               = Article (renderMarkdown (c # t)) tip)"
proof (intro conjI)
  show "\<exists>w1 w2 w3 w4.
        wrapping strippable (js ''<li>'') (js ''</li>'') s w1
      \<and> wrapping (\<lambda>c. False) (js ''<ul>'') (js ''</ul>'') w1 w2
      \<and> wrapping strippable (js ''<strong>'') (js ''</strong>'') w2 w3
      \<and> wrapping strippable (js ''<em>'') (js ''</em>'') w3 w4
      \<and> wrapping strippable (js ''<code>'') (js ''</code>'') w4 (renderMarkdown s)"
    by (rule renderMarkdown_wrapping)
  show "\<forall>c. angleBracket c \<longrightarrow> \<not> strippable c"
    using angleBracket_not_strippable by blast
  show "set (renderMarkdown s) \<subseteq> set s \<union> set (js ''</li></ul></strong></em></code>'')"
    by (rule renderMarkdown_chars)
  let ?keep = "\<lambda>c. \<not> strippable c"
  have "filter angleBracket (filter ?keep s) = filter angleBracket s"
    using angleBracket_not_strippable by (auto intro: filter_cong)
  moreover have "subseq (filter angleBracket (filter ?keep s)) (filter angleBracket (renderMarkdown s))"
    using renderMarkdown_keeps_unstrippable by (rule subseq_filter)
  moreover have "subseq (filter angleBracket (renderMarkdown s)) (renderMarkdown s)"
    by (rule subseq_filter_left)
  ultimately show "subseq (filter angleBracket s) (renderMarkdown s)"
    using subseq_order.trans by metis
  show "\<exists>tip. body (RepoModal env (Some (r\<lparr>readme_summary := Some (c # t)\<rparr>)))
               = Article (renderMarkdown (c # t)) tip"
    by (simp add: RepoModal_def)
qed

theorem angle_brackets_kept_witness:
  "angleBracket (of_char CHR ''<'') \<and> \<not> strippable (of_char CHR ''<'')
   \<and> angleBracket (of_char CHR ''>'') \<and> \<not> strippable (of_char CHR ''>'')
   \<and> subseq (js ''<><>'') (renderMarkdown (js ''- *a* <b>x</b>''))
   \<and> renderMarkdown (js ''- *a* <b>x</b>'') = js ''<ul><li><em>a</em> <b>x</b></li></ul>''"
proof -
  have "filter angleBracket (js ''- *a* <b>x</b>'') = js ''<><>''" by code_simp
  moreover have "renderMarkdown (js ''- *a* <b>x</b>'') = js ''<ul><li><em>a</em> <b>x</b></li></ul>''"
    by code_simp
  moreover have "angleBracket (of_char CHR ''<'')" "angleBracket (of_char CHR ''>'')"
    by (simp_all add: angleBracket_def)
  ultimately show ?thesis
    using angle_brackets_kept [where s = "js ''- *a* <b>x</b>''"]
    by metis
qed

text \<open>
  C10. A response that is OK whose body is not valid JSON: \<open>res.json()\<close> returns a promise
  that is rejected. Each of the four functions returns that promise without \<open>await\<close>,
  so the rejection passes the \<open>catch\<close> block and reaches the caller; the fallback value
  is not returned.
\<close>

theorem json_rejection_reaches_caller:
  "fetchThesis (Inr \<lparr>ok = True, json = Inl JsonRejected\<rparr>) = Inl JsonRejected
   \<and> fetchRepos (Inr \<lparr>ok = True, json = Inl JsonRejected\<rparr>) = Inl JsonRejected
   \<and> fetchThesis_home (Inr \<lparr>ok = True, json = Inl JsonRejected\<rparr>) = Inl JsonRejected
   \<and> fetchProfile (Inr \<lparr>ok = True, json = Inl JsonRejected\<rparr>) = Inl JsonRejected"
  by (simp add: fetchThesis_def fetchRepos_def fetchThesis_home_def fetchProfile_def)

end
